theory Spec2Isabelle
  imports Complex_Main "HOL-Library.Log_Nat"
begin

section \<open>Strings\<close>

text \<open>
  A Python \<open>str\<close> is a sequence of code points. The model covers the code points below
  256 (Latin-1): a string is a \<^typ>\<open>char list\<close> and \<^term>\<open>of_char c\<close> is the code
  point of \<open>c\<close>, so \<^const>\<open>length\<close> is Python's \<open>len\<close>.
\<close>

definition isspace :: "char \<Rightarrow> bool" where
  \<comment> \<open>\<open>str.isspace\<close> on one code point; the class \<open>\s\<close> of \<open>re\<close> on \<open>str\<close> patterns
      and the characters removed by \<open>str.strip()\<close> are the same set.\<close>
  "isspace c = (of_char c \<in> {9, 10, 11, 12, 13, 28, 29, 30, 31, 32, 133, 160 :: nat})"

definition strip :: "string \<Rightarrow> string" where
  \<comment> \<open>\<open>s.strip()\<close>\<close>
  "strip s = rev (dropWhile isspace (rev (dropWhile isspace s)))"

function re_sub_spaces :: "string \<Rightarrow> string" where
  \<comment> \<open>\<open>re.sub(r'\s+', ' ', s)\<close>: every maximal run of whitespace becomes one space.\<close>
  "re_sub_spaces [] = []"
| "re_sub_spaces (x # xs) =
     (if isspace x then CHR '' '' # re_sub_spaces (dropWhile isspace xs)
      else x # re_sub_spaces xs)"
  by pat_completeness auto
termination
  by (relation "measure length") (auto simp: less_Suc_eq_le length_dropWhile_le)

function re_sub_run :: "char \<Rightarrow> string \<Rightarrow> string \<Rightarrow> string" where
  \<comment> \<open>\<open>re.sub(c{2,}, rep, s)\<close> for a literal character \<open>c\<close>: scanning from the left,
      every maximal run of two or more \<open>c\<close> becomes \<open>rep\<close>; a single \<open>c\<close> stays.\<close>
  "re_sub_run c rep [] = []"
| "re_sub_run c rep [x] = [x]"
| "re_sub_run c rep (x # y # zs) =
     (if x = c \<and> y = c then rep @ re_sub_run c rep (dropWhile (\<lambda>z. z = c) zs)
      else x # re_sub_run c rep (y # zs))"
  by pat_completeness auto
termination
  by (relation "measure (\<lambda>(c, rep, s). length s)")
     (auto simp: less_Suc_eq_le intro: le_trans [OF length_dropWhile_le])

fun re_split :: "(char \<Rightarrow> bool) \<Rightarrow> string \<Rightarrow> string list" where
  \<comment> \<open>\<open>re.split\<close> on a one-character class: the pieces between the separators, empty
      pieces included; the result is never the empty list.\<close>
  "re_split P [] = [[]]"
| "re_split P (x # xs) =
     (let r = re_split P xs in if P x then [] # r else (x # hd r) # tl r)"

function split_ws :: "string \<Rightarrow> string list" where
  \<comment> \<open>\<open>s.split()\<close>: the maximal runs of characters that are not whitespace.\<close>
  "split_ws s =
     (let t = dropWhile isspace s
      in if t = [] then []
         else takeWhile (\<lambda>c. \<not> isspace c) t # split_ws (dropWhile (\<lambda>c. \<not> isspace c) t))"
  by pat_completeness auto
termination
proof (relation "measure length")
  show "wf (measure length)" by simp
next
  fix s t :: string
  assume t: "t = dropWhile isspace s" and ne: "t \<noteq> []"
  then have "\<not> isspace (hd t)" using hd_dropWhile [of isspace s] by blast
  then have "length (dropWhile (\<lambda>c. \<not> isspace c) t) < length t"
    using ne by (cases t) (auto simp: less_Suc_eq_le length_dropWhile_le)
  also have "length t \<le> length s" unfolding t by (rule length_dropWhile_le)
  finally show "(dropWhile (\<lambda>c. \<not> isspace c) t, s) \<in> measure length" by simp
qed

declare split_ws.simps [simp del]

fun startswith :: "string \<Rightarrow> string \<Rightarrow> bool" where
  \<comment> \<open>\<open>s.startswith(p)\<close>\<close>
  "startswith s [] = True"
| "startswith [] (p # ps) = False"
| "startswith (x # xs) (p # ps) = (x = p \<and> startswith xs ps)"

fun contains :: "string \<Rightarrow> string \<Rightarrow> bool" where
  \<comment> \<open>\<open>sub in s\<close>: \<open>sub\<close> occurs in \<open>s\<close> as a contiguous substring.\<close>
  "contains sub [] = (sub = [])"
| "contains sub (x # xs) = (startswith (x # xs) sub \<or> contains sub xs)"

definition ascii_uppercase :: string where
  "ascii_uppercase = ''ABCDEFGHIJKLMNOPQRSTUVWXYZ''"

definition ascii_lowercase :: string where
  "ascii_lowercase = ''abcdefghijklmnopqrstuvwxyz''"

definition latin1_uppercase :: string where
  \<comment> \<open>the cased code points U+00C0 to U+00DE (U+00D7, the multiplication sign, has no case)\<close>
  "latin1_uppercase =
     [CHR 0xC0, CHR 0xC1, CHR 0xC2, CHR 0xC3, CHR 0xC4, CHR 0xC5, CHR 0xC6, CHR 0xC7,
      CHR 0xC8, CHR 0xC9, CHR 0xCA, CHR 0xCB, CHR 0xCC, CHR 0xCD, CHR 0xCE, CHR 0xCF,
      CHR 0xD0, CHR 0xD1, CHR 0xD2, CHR 0xD3, CHR 0xD4, CHR 0xD5, CHR 0xD6, CHR 0xD8,
      CHR 0xD9, CHR 0xDA, CHR 0xDB, CHR 0xDC, CHR 0xDD, CHR 0xDE]"

definition latin1_lowercase :: string where
  "latin1_lowercase =
     [CHR 0xE0, CHR 0xE1, CHR 0xE2, CHR 0xE3, CHR 0xE4, CHR 0xE5, CHR 0xE6, CHR 0xE7,
      CHR 0xE8, CHR 0xE9, CHR 0xEA, CHR 0xEB, CHR 0xEC, CHR 0xED, CHR 0xEE, CHR 0xEF,
      CHR 0xF0, CHR 0xF1, CHR 0xF2, CHR 0xF3, CHR 0xF4, CHR 0xF5, CHR 0xF6, CHR 0xF8,
      CHR 0xF9, CHR 0xFA, CHR 0xFB, CHR 0xFC, CHR 0xFD, CHR 0xFE]"

definition lower_char :: "char \<Rightarrow> char" where
  "lower_char c =
     (case map_of (zip (ascii_uppercase @ latin1_uppercase)
                       (ascii_lowercase @ latin1_lowercase)) c of
        Some l \<Rightarrow> l
      | None \<Rightarrow> c)"

definition lower :: "string \<Rightarrow> string" where
  \<comment> \<open>\<open>s.lower()\<close>\<close>
  "lower s = map lower_char s"

definition slice_bound :: "int \<Rightarrow> nat \<Rightarrow> nat" where
  \<comment> \<open>a slice bound on a sequence of length \<open>n\<close>: a negative bound counts from the end,
      and the result is clamped to \<open>0..n\<close>.\<close>
  "slice_bound i n = (if i < 0 then nat (max (i + int n) 0) else min (nat i) n)"

definition slice_to :: "'a list \<Rightarrow> int \<Rightarrow> 'a list" where
  \<comment> \<open>\<open>xs[:b]\<close>\<close>
  "slice_to xs b = take (slice_bound b (length xs)) xs"

definition slice_from :: "'a list \<Rightarrow> int \<Rightarrow> 'a list" where
  \<comment> \<open>\<open>xs[a:]\<close>\<close>
  "slice_from xs a = drop (slice_bound a (length xs)) xs"

definition slice :: "'a list \<Rightarrow> int \<Rightarrow> int \<Rightarrow> 'a list" where
  \<comment> \<open>\<open>xs[a:b]\<close>\<close>
  "slice xs a b =
     (let lo = slice_bound a (length xs); hi = slice_bound b (length xs)
      in take (hi - lo) (drop lo xs))"

section \<open>TokenOptimizationPipeline\<close>

definition truncate_text :: "string \<Rightarrow> int \<Rightarrow> string" where
  "truncate_text text max_length =
     (if int (length text) \<le> max_length then text
      else
        let intro_length = max_length div 3;
            conclusion_length = max_length div 3;
            middle_length = max_length - intro_length - conclusion_length;
            intro = slice_to text intro_length;
            conclusion = slice_from text (- conclusion_length)
        in intro @ ''...''
             @ slice text (int (length text) - middle_length - conclusion_length)
                 (- conclusion_length)
             @ conclusion)"

definition optimize_prompt :: "string \<Rightarrow> string" where
  "optimize_prompt prompt =
     (let prompt = re_sub_spaces prompt;
          prompt = strip prompt;
          prompt = re_sub_run (CHR ''.'') ''...'' prompt;
          prompt = re_sub_run (CHR ''!'') ''!'' prompt;
          prompt = re_sub_run (CHR ''?'') ''?'' prompt
      in prompt)"

section \<open>Floating-point numbers\<close>

text \<open>
  Python's \<open>float\<close> is an IEEE 754 binary64 number. A float is modelled by the real
  number it denotes, and every operation on floats rounds its exact result to the nearest
  number with a significand of 53 bits, a tie going to the even significand: this is
  \<open>fl\<close>. A float literal such as \<open>0.20\<close> denotes \<open>fl 0.20\<close>, the float nearest to
  the decimal. The division \<open>/\<close> of two \<open>int\<close>s is the correctly rounded quotient as
  well, and an \<open>int\<close> below \<open>2 ^ 53\<close> that meets a float is converted exactly.

  The exponent is not bounded in the model. For a query of fewer than \<open>2 ^ 1000\<close>
  characters every number the scorer computes is 0 or lies between \<open>2 ^ - 20\<close> and
  \<open>2 ^ 1000\<close>, where binary64 neither overflows nor leaves its normal range, so there
  the model and binary64 agree. No divisor of the scorer is 0.
\<close>

definition round_half_even :: "real \<Rightarrow> int" where
  \<comment> \<open>the integer nearest to \<open>y\<close>, the even one of the two when \<open>y\<close> lies half way\<close>
  "round_half_even y =
     (let f = \<lfloor>y\<rfloor>; d = y - of_int f
      in if d < 1 / 2 then f else if 1 / 2 < d then f + 1 else if even f then f else f + 1)"

definition binade :: "real \<Rightarrow> int" where
  \<comment> \<open>for \<open>0 < x\<close>, the exponent \<open>e\<close> with \<open>2 ^ e \<le> x < 2 ^ (e + 1)\<close>\<close>
  "binade x = (if 1 \<le> x then bitlen \<lfloor>x\<rfloor> - 1 else - bitlen (\<lceil>1 / x\<rceil> - 1))"

definition fl :: "real \<Rightarrow> real" where
  \<comment> \<open>rounding to 53 significant bits: the multiples of \<open>2 ^ (e - 52)\<close> are the floats
      between \<open>2 ^ e\<close> and \<open>2 ^ (e + 1)\<close>\<close>
  "fl x =
     (if x = 0 then 0
      else let q = 2 powi (binade \<bar>x\<bar> - 52)
           in of_int (round_half_even (x / q)) * q)"

definition fadd :: "real \<Rightarrow> real \<Rightarrow> real" where
  \<comment> \<open>\<open>x + y\<close> on floats\<close>
  "fadd x y = fl (x + y)"

definition fmul :: "real \<Rightarrow> real \<Rightarrow> real" where
  \<comment> \<open>\<open>x * y\<close> on floats\<close>
  "fmul x y = fl (x * y)"

definition fdiv :: "real \<Rightarrow> real \<Rightarrow> real" where
  \<comment> \<open>\<open>x / y\<close> on floats and on \<open>int\<close>s, for \<open>y\<close> other than 0\<close>
  "fdiv x y = fl (x / y)"

section \<open>DynamicComplexityRouter\<close>

text \<open>
  \<open>TERM_WEIGHTS\<close> holds the weights as the decimal literals of the source; reading a
  weight, \<open>weights_get\<close>, gives the float the literal denotes. The running
  \<open>indicator_count\<close> starts as the \<open>int\<close> 0 and is a float from the first match on.
\<close>


definition COMPLEXITY_INDICATORS :: "string list" where
  "COMPLEXITY_INDICATORS =
    [''analyze'', ''synthesize'', ''evaluate'', ''compare'', ''contrast'',
     ''implications'', ''consequences'', ''relationship between'',
     ''multi-step'', ''complex'', ''reasoning'', ''why'', ''how does'',
     ''explain in detail'', ''elaborate'', ''what would happen if'',
     ''critically'', ''argument'', ''evidence'', ''theory'', ''hypothesis'',
     ''infer'', ''deduce'', ''prove'', ''concept'', ''discuss'', ''explore'',
     ''technical'', ''scientific'', ''mathematical'', ''algorithm'',
     ''architecture'', ''framework'', ''implementation'', ''methodology'',
     ''mechanism'', ''approach'', ''statistics'', ''correlation'',
     ''philosophical'', ''ethical'', ''moral'', ''metaphysical'', ''epistemological'',
     ''consciousness'', ''existence'', ''meaning'', ''purpose'', ''free will'',
     ''determinism'', ''relativism'', ''utilitarianism'', ''deontological'',
     ''virtue ethics'', ''social contract'', ''rights'', ''justice'',
     ''dialectic'', ''ontology'', ''phenomenology'', ''hermeneutics'',
     ''considerations'', ''implications'', ''paradox'', ''dilemma'',
     ''dimensions'', ''aspects'', ''autonomy'', ''autonomous'', ''relate'',
     ''connection'', ''relationship'', ''impact'',
     ''domain knowledge'', ''specialized'', ''expert'', ''discipline'',
     ''paradigm'', ''school of thought'', ''perspective'', ''worldview'']"

definition COMPLEX_PHRASES :: "string list" where
  "COMPLEX_PHRASES =
    [''free will'', ''moral dimension'', ''ethical implication'', ''philosophical issue'',
     ''autonomous system'', ''consciousness in'', ''deterministic model'',
     ''causal relationship'', ''relate to'', ''connection between'', ''dimensions of'',
     ''aspects of'']"

definition TERM_WEIGHTS :: "(string \<times> real) list" where
  "TERM_WEIGHTS =
    [(''philosophical'', 3.0), (''ethical'', 3.0), (''epistemological'', 3.0),
     (''ontology'', 3.0), (''metaphysical'', 3.0), (''consciousness'', 3.0),
     (''free will'', 3.0), (''moral dimension'', 3.0), (''ethical implication'', 3.0),
     (''determinism'', 3.0),
     (''analyze'', 2.0), (''synthesize'', 2.0), (''evaluate'', 2.0), (''explore'', 2.0),
     (''discuss'', 2.0),
     (''complex'', 1.8), (''theory'', 1.8), (''implications'', 1.8),
     (''considerations'', 1.8), (''paradox'', 1.8), (''dilemma'', 1.8), (''moral'', 1.8),
     (''dimensions'', 1.8), (''autonomous'', 1.8), (''relate'', 1.8)]"

definition weights_get :: "string \<Rightarrow> real \<Rightarrow> real" where
  \<comment> \<open>\<open>cls.TERM_WEIGHTS.get(key, dflt)\<close>\<close>
  "weights_get key dflt = fl (case map_of TERM_WEIGHTS key of Some w \<Rightarrow> w | None \<Rightarrow> dflt)"

fun add_weights :: "string list \<Rightarrow> real \<Rightarrow> string \<Rightarrow> real \<Rightarrow> real" where
  \<comment> \<open>the two \<open>for\<close> loops over the indicator tables: the running \<open>indicator_count\<close>
      gains the weight of every entry that occurs in the query.\<close>
  "add_weights [] dflt query indicator_count = indicator_count"
| "add_weights (indicator # rest) dflt query indicator_count =
     (if contains indicator query
      then add_weights rest dflt query (fadd indicator_count (weights_get indicator dflt))
      else add_weights rest dflt query indicator_count)"

definition topic_boost :: "string \<Rightarrow> real \<Rightarrow> real" where
  "topic_boost query indicator_count =
     (if list_ex (\<lambda>t. contains t query) [''ai'', ''artificial intelligence''] then
        if list_ex (\<lambda>t. contains t query)
             [''ethics'', ''ethical'', ''moral'', ''philosophy'', ''consciousness'',
              ''free will'', ''determinism'']
        then fadd indicator_count (fl 1.5) else indicator_count
      else indicator_count)"

definition indicator_count :: "string \<Rightarrow> real" where
  "indicator_count query =
     topic_boost query
       (add_weights COMPLEX_PHRASES 2.0 query
         (add_weights COMPLEXITY_INDICATORS 1.0 query 0))"

definition length_score :: "string \<Rightarrow> real" where
  "length_score query = min (fdiv (real (length query)) 200) 1.0"

definition indicator_score :: "string \<Rightarrow> real" where
  "indicator_score query = min (fdiv (indicator_count query) 6) 1.0"

definition sentences :: "string \<Rightarrow> string list" where
  "sentences query =
     map strip (filter (\<lambda>s. strip s \<noteq> [])
       (re_split (\<lambda>c. c = CHR ''.'' \<or> c = CHR ''!'' \<or> c = CHR ''?'') query))"

definition avg_words_per_sentence :: "string \<Rightarrow> real" where
  "avg_words_per_sentence query =
     fdiv (real (sum_list (map (\<lambda>s. length (split_ws s)) (sentences query))))
          (real (max (length (sentences query)) 1))"

definition sentence_score :: "string \<Rightarrow> real" where
  "sentence_score query = min (fdiv (avg_words_per_sentence query) 20) 1.0"

definition assess_complexity :: "string \<Rightarrow> bool \<times> real" where
  "assess_complexity query =
     (let query = lower query;
          complexity_score =
            fadd (fadd (fmul (fl 0.20) (length_score query))
                       (fmul (fl 0.70) (indicator_score query)))
                 (fmul (fl 0.10) (sentence_score query));
          is_complex = (complexity_score > fl 0.30)
      in (is_complex, complexity_score))"

section \<open>Objects and chains\<close>

text \<open>
  Chains, retrievers and models are objects on a heap; a reference is an index into it
  and identity of objects (\<open>is\<close>) is equality of references. An object is known by its
  attribute dictionary, which is what \<open>hasattr\<close> and attribute access observe. Objects
  are only ever allocated at the end of the heap. An object built by a constructor of the
  LangChain library records the constructor's arguments; heap objects are taken to be
  runnables, the values \<open>None\<close> and \<open>str\<close> are not.
\<close>

type_synonym ref = nat

datatype pyval = PNone | PStr string | PFun string | PRef ref

type_synonym obj = "(string \<times> pyval) list"

type_synonym heap = "obj list"

text \<open>
  The exceptions raised by the synchronous code of a turn (constructors, attribute access,
  pipes) are instances of \<open>Exception\<close>; these are the values of type \<open>exn\<close>, and an
  \<open>except Exception\<close> clause catches each of them.
\<close>

datatype exn = AttributeError string | TypeError string | Exception string

fun exn_str :: "exn \<Rightarrow> string" where
  \<comment> \<open>\<open>str(e)\<close>\<close>
  "exn_str (AttributeError m) = m"
| "exn_str (TypeError m) = m"
| "exn_str (Exception m) = m"

type_synonym 'a comp = "heap \<Rightarrow> (exn + 'a) \<times> heap"

definition ret :: "'a \<Rightarrow> 'a comp" where
  "ret x h = (Inr x, h)"

definition raise :: "exn \<Rightarrow> 'a comp" where
  "raise e h = (Inl e, h)"

definition bind :: "'a comp \<Rightarrow> ('a \<Rightarrow> 'b comp) \<Rightarrow> 'b comp" where
  "bind m f h = (case m h of (Inl e, h') \<Rightarrow> (Inl e, h') | (Inr x, h') \<Rightarrow> f x h')"

definition new :: "obj \<Rightarrow> pyval comp" where
  "new ob h = (Inr (PRef (length h)), h @ [ob])"

definition getattr :: "heap \<Rightarrow> pyval \<Rightarrow> string \<Rightarrow> pyval option" where
  \<comment> \<open>\<open>None\<close> stands for the \<open>AttributeError\<close> of a missing attribute.\<close>
  "getattr h v name =
     (case v of
        PRef r \<Rightarrow> if r < length h then map_of (h ! r) name else None
      | _ \<Rightarrow> None)"

definition hasattr :: "heap \<Rightarrow> pyval \<Rightarrow> string \<Rightarrow> bool" where
  "hasattr h v name = (getattr h v name \<noteq> None)"

fun getpath :: "heap \<Rightarrow> pyval \<Rightarrow> string list \<Rightarrow> pyval option" where
  \<comment> \<open>\<open>v.a.b.c\<close>\<close>
  "getpath h v [] = Some v"
| "getpath h v (name # names) =
     (case getattr h v name of None \<Rightarrow> None | Some x \<Rightarrow> getpath h x names)"

definition with_config :: "pyval \<Rightarrow> string \<Rightarrow> pyval comp" where
  \<comment> \<open>\<open>v.with_config({"run_name": run_name})\<close>: a new binding around the same object.\<close>
  "with_config v run_name =
     (case v of
        PRef r \<Rightarrow>
          new [(''__class__'', PStr ''RunnableBinding''), (''bound'', v),
               (''run_name'', PStr run_name)]
      | _ \<Rightarrow> raise (AttributeError ''object has no attribute with_config''))"

definition runnable_like :: "pyval \<Rightarrow> bool" where
  "runnable_like v = (case v of PRef r \<Rightarrow> True | PFun f \<Rightarrow> True | _ \<Rightarrow> False)"

definition pipe :: "pyval \<Rightarrow> pyval \<Rightarrow> pyval comp" where
  \<comment> \<open>\<open>a | b\<close>\<close>
  "pipe a b =
     (if runnable_like a \<and> runnable_like b
      then new [(''__class__'', PStr ''RunnableSequence''), (''first'', a), (''last'', b)]
      else raise (TypeError ''expected a Runnable, callable or dict''))"

definition SYSTEM_PROMPT :: string where
  "SYSTEM_PROMPT = concat
     [[CHR 0x0A],
      ''Utilize the provided contextual information to respond to the user question.'',
      [CHR 0x0A],
      ''If the answer is not found within the context, state that the answer cannot be found.'',
      [CHR 0x0A],
      ''Prioritize concise responses (maximum of 3 sentences) and use a list where applicable.'',
      [CHR 0x0A],
      ''The contextual information is organized with the most relevant source appearing first.'',
      [CHR 0x0A],
      ''Each source is separated by a horizontal rule (---).'',
      [CHR 0x0A, CHR 0x0A],
      ''Context:'', [CHR 0x0A], ''{context}'', [CHR 0x0A, CHR 0x0A],
      ''Use markdown formatting where appropriate.'', [CHR 0x0A]]"

definition chat_prompt :: "pyval comp" where
  \<comment> \<open>\<open>ChatPromptTemplate.from_messages([("system", SYSTEM_PROMPT),
      MessagesPlaceholder("chat_history"), ("human", "{question}")])\<close>\<close>
  "chat_prompt =
     new [(''__class__'', PStr ''ChatPromptTemplate''), (''system'', PStr SYSTEM_PROMPT),
          (''placeholder'', PStr ''chat_history''), (''human'', PStr ''{question}'')]"

definition history_chain :: "pyval \<Rightarrow> pyval \<Rightarrow> pyval \<Rightarrow> pyval comp" where
  \<comment> \<open>The expression that \<open>create_chain\<close> and both branches of \<open>update_chain_llm\<close>
      evaluate: the retrieval stage piped into the prompt and the model, wrapped with the
      message history and named \<open>chain_answer\<close>.\<close>
  "history_chain prompt retriever llm =
     bind (new [(''__class__'', PStr ''itemgetter''), (''item'', PStr ''question'')])
       (\<lambda>getter.
     bind (with_config retriever ''context_retriever'') (\<lambda>context_retriever.
     bind (pipe getter context_retriever) (\<lambda>getter_retriever.
     bind (pipe getter_retriever (PFun ''format_documents'')) (\<lambda>context.
     bind (new [(''__class__'', PStr ''RunnableAssign''), (''context'', context)])
       (\<lambda>assign.
     bind (pipe assign prompt) (\<lambda>assign_prompt.
     bind (pipe assign_prompt llm) (\<lambda>inner_chain.
     bind (new [(''__class__'', PStr ''RunnableWithMessageHistory''),
                (''runnable'', inner_chain),
                (''get_session_history'', PFun ''get_session_history''),
                (''input_messages_key'', PStr ''question''),
                (''history_messages_key'', PStr ''chat_history'')]) (\<lambda>with_history.
     with_config with_history ''chain_answer''))))))))"

definition create_chain :: "pyval \<Rightarrow> pyval \<Rightarrow> pyval comp" where
  "create_chain llm retriever = bind chat_prompt (\<lambda>prompt. history_chain prompt retriever llm)"

definition probe_inner :: "heap \<Rightarrow> pyval \<Rightarrow> pyval" where
  \<comment> \<open>the variable \<open>retriever\<close> after the probing of \<open>inner_chain\<close>\<close>
  "probe_inner h inner_chain =
     (case getattr h inner_chain ''retriever'' of
        Some r \<Rightarrow> r
      | None \<Rightarrow>
          (case getattr h inner_chain ''first'' of
             Some first \<Rightarrow>
               (case getattr h first ''retriever'' of Some r \<Rightarrow> r | None \<Rightarrow> PNone)
           | None \<Rightarrow> PNone))"

definition probe_direct :: "heap \<Rightarrow> pyval \<Rightarrow> pyval" where
  \<comment> \<open>the variable \<open>retriever\<close> after the probing of a chain without \<open>runnable\<close>\<close>
  "probe_direct h chain =
     (case getattr h chain ''retriever'' of Some r \<Rightarrow> r | None \<Rightarrow> PNone)"

definition update_chain_llm :: "pyval \<Rightarrow> pyval \<Rightarrow> pyval comp" where
  "update_chain_llm chain llm h =
     (case getattr h chain ''runnable'' of
        Some inner_chain \<Rightarrow>
          (let retriever = probe_inner h inner_chain
           in if retriever = PNone then ret chain h
              else bind chat_prompt (\<lambda>prompt. history_chain prompt retriever llm) h)
      | None \<Rightarrow>
          bind chat_prompt
            (\<lambda>prompt h'.
               let retriever = probe_direct h' chain
               in if retriever = PNone then ret chain h'
                  else history_chain prompt retriever llm h') h)"

subsection \<open>The turn\<close>

record config =
  AUTO_COMPLEXITY_ROUTING :: bool
  USE_TOKEN_OPTIMIZATION :: bool
  DEBUG :: bool

definition GENERAL_LLM :: string where
  "GENERAL_LLM = ''llama-3.3-70b-versatile''"

definition COMPLEX_LLM :: string where
  "COMPLEX_LLM = ''deepseek-r1-distill-llama-70b''"

definition TEMPERATURE :: real where
  "TEMPERATURE = 0.0"

definition MAX_TOKENS :: nat where
  "MAX_TOKENS = 8000"

type_synonym document = string

datatype chain_event =
    OnRetrieverEnd "document list"
  | OnChainStream string
  | OnOther string

datatype item = Documents "document list" | Text string

text \<open>
  Awaiting the event stream can also end by an exception that derives from
  \<open>BaseException\<close> and not from \<open>Exception\<close>: \<open>asyncio.CancelledError\<close> when the task
  is cancelled, or \<open>KeyboardInterrupt\<close>. An \<open>except Exception\<close> clause does not catch
  these. The routing and optimization blocks of a turn await nothing, so there only the
  exceptions of type \<^typ>\<open>exn\<close> arise.
\<close>

datatype interrupt = CancelledError | KeyboardInterrupt

datatype ending = Completed | Raised exn | Interrupted interrupt

text \<open>
  The collaborators outside the repository: the constructor of the model, which may raise,
  and the event stream of a chain for a question and a session, a finite sequence of
  events that is exhausted, or ends with an exception raised while the next event is
  awaited.
\<close>

record env =
  ChatGroq :: "real \<Rightarrow> string \<Rightarrow> nat \<Rightarrow> pyval comp"
  astream_events ::
    "heap \<Rightarrow> pyval \<Rightarrow> string \<Rightarrow> bool \<Rightarrow> string \<Rightarrow> chain_event list \<times> ending"

definition create_llm :: "env \<Rightarrow> bool \<Rightarrow> pyval comp" where
  "create_llm e use_complex_model =
     (let model_name = (if use_complex_model then COMPLEX_LLM else GENERAL_LLM)
      in ChatGroq e TEMPERATURE model_name MAX_TOKENS)"

definition get_appropriate_llm :: "env \<Rightarrow> string \<Rightarrow> (pyval \<times> bool) comp" where
  "get_appropriate_llm e query =
     (let (is_complex, score) = assess_complexity query
      in bind (create_llm e is_complex) (\<lambda>llm. ret (llm, is_complex)))"

definition routing :: "env \<Rightarrow> pyval \<Rightarrow> string \<Rightarrow> pyval comp" where
  \<comment> \<open>the body of the first \<open>try\<close> up to the assignment of \<open>updated_chain\<close>\<close>
  "routing e chain question =
     bind (get_appropriate_llm e question) (\<lambda>(llm, is_complex). update_chain_llm chain llm)"

definition select_chain :: "config \<Rightarrow> env \<Rightarrow> pyval \<Rightarrow> string \<Rightarrow> heap \<Rightarrow> pyval \<times> heap" where
  \<comment> \<open>the variable \<open>chain\<close> after the routing block\<close>
  "select_chain cfg e chain question h =
     (if AUTO_COMPLEXITY_ROUTING cfg then
        (case routing e chain question h of
           (Inr updated_chain, h') \<Rightarrow>
             if updated_chain \<noteq> chain then (updated_chain, h') else (chain, h')
         | (Inl ex, h') \<Rightarrow> (chain, h'))
      else (chain, h))"

definition select_question :: "config \<Rightarrow> string \<Rightarrow> string" where
  \<comment> \<open>the variable \<open>question\<close> after the optimization block\<close>
  "select_question cfg question =
     (if USE_TOKEN_OPTIMIZATION cfg then
        (let optimized_question = optimize_prompt question
         in if optimized_question \<noteq> [] then optimized_question else question)
      else question)"

definition error_message :: "exn \<Rightarrow> string" where
  "error_message ex = ''An error occurred while processing your question: '' @ exn_str ex"

fun forward :: "chain_event \<Rightarrow> item list" where
  \<comment> \<open>the body of the \<open>async for\<close>\<close>
  "forward (OnRetrieverEnd output) = [Documents output]"
| "forward (OnChainStream content) = [Text content]"
| "forward (OnOther name) = []"

fun stream_loop :: "chain_event list \<Rightarrow> ending \<Rightarrow> item list \<times> interrupt option" where
  \<comment> \<open>the second \<open>try\<close>: the items the generator yields for a stream of events and its
      ending, and the exception that leaves the generator, if one does. An exception of
      the stream that is an instance of \<open>Exception\<close> is caught and answered by one more
      item; any other exception passes through the \<open>except\<close> clause.\<close>
  "stream_loop [] Completed = ([], None)"
| "stream_loop [] (Raised ex) = ([Text (error_message ex)], None)"
| "stream_loop [] (Interrupted b) = ([], Some b)"
| "stream_loop (event # events) ending =
     (let (items, leaving) = stream_loop events ending in (forward event @ items, leaving))"

definition ask_question ::
  "config \<Rightarrow> env \<Rightarrow> pyval \<Rightarrow> string \<Rightarrow> string \<Rightarrow> heap \<Rightarrow> item list \<times> interrupt option" where
  "ask_question cfg e chain question session_id h =
     (let (chain, h) = select_chain cfg e chain question h;
          question = select_question cfg question;
          (events, ending) = astream_events e h chain question (DEBUG cfg) session_id
      in stream_loop events ending)"

section \<open>Notions used in the statements and proofs\<close>

text \<open>
  A string is in whitespace normal form when every whitespace character in it is a space
  that is not followed by whitespace, and it is stripped when it neither starts nor ends
  with whitespace.
\<close>

fun spaces_ok :: "string \<Rightarrow> bool" where
  "spaces_ok [] = True"
| "spaces_ok [x] = (isspace x \<longrightarrow> x = CHR '' '')"
| "spaces_ok (x # y # zs) =
     ((isspace x \<longrightarrow> x = CHR '' '' \<and> \<not> isspace y) \<and> spaces_ok (y # zs))"

definition strip_ok :: "string \<Rightarrow> bool" where
  "strip_ok s = (s = [] \<or> (\<not> isspace (hd s) \<and> \<not> isspace (last s)))"

text \<open>
  The matched indicators of a query, in the words of the specification: the entries of
  the two tables that occur in the lower-cased query, in table order, each with the weight
  the loop adds for it.
\<close>

definition matched_indicators :: "string \<Rightarrow> (string \<times> real) list" where
  "matched_indicators query =
     (let query = lower query
      in map (\<lambda>i. (i, weights_get i 1.0)) (filter (\<lambda>i. contains i query) COMPLEXITY_INDICATORS)
         @ map (\<lambda>p. (p, weights_get p 2.0)) (filter (\<lambda>p. contains p query) COMPLEX_PHRASES))"

text \<open>
  The recognized high-weight terms: the entries of the two tables whose configured weight
  is 3.0.
\<close>

definition high_weight_terms :: "string list" where
  "high_weight_terms =
     filter (\<lambda>t. map_of TERM_WEIGHTS t = Some 3.0) (COMPLEXITY_INDICATORS @ COMPLEX_PHRASES)"

text \<open>
  The retrieval stage that \<open>update_chain_llm\<close> locates in a chain by probing it, the
  retrieval stage of a chain built by \<^const>\<open>history_chain\<close> (the object bound inside
  its \<open>context_retriever\<close>), and the model such a chain is bound to.
\<close>

definition located_retriever :: "heap \<Rightarrow> pyval \<Rightarrow> pyval" where
  "located_retriever h chain =
     (case getattr h chain ''runnable'' of
        Some inner_chain \<Rightarrow> probe_inner h inner_chain
      | None \<Rightarrow> probe_direct h chain)"

definition retrieval_stage :: "heap \<Rightarrow> pyval \<Rightarrow> pyval option" where
  "retrieval_stage h chain =
     getpath h chain
       [''bound'', ''runnable'', ''first'', ''first'', ''context'', ''first'', ''last'',
        ''bound'']"

definition bound_model :: "heap \<Rightarrow> pyval \<Rightarrow> pyval option" where
  "bound_model h chain = getpath h chain [''bound'', ''runnable'', ''last'']"

text \<open>
  A query of 219 characters, one sentence of 20 words, in which no indicator occurs.
\<close>

definition long_plain_query :: string where
  "long_plain_query =
     ''bbbbbbbbbb bbbbbbbbbb bbbbbbbbbb bbbbbbbbbb bbbbbbbbbb ''
       @ ''bbbbbbbbbb bbbbbbbbbb bbbbbbbbbb bbbbbbbbbb bbbbbbbbbb ''
       @ ''bbbbbbbbbb bbbbbbbbbb bbbbbbbbbb bbbbbbbbbb bbbbbbbbbb ''
       @ ''bbbbbbbbbb bbbbbbbbbb bbbbbbbbbb bbbbbbbbbb bbbbbbbbbb''"

text \<open>
  What the events of a stream make the generator yield, in the words of the
  specification: the retrieved documents of a retriever event, the text of a chunk, and
  nothing for any other event.
\<close>

definition emitted :: "chain_event list \<Rightarrow> item list" where
  "emitted events =
     concat (map (\<lambda>event. case event of
                              OnRetrieverEnd output \<Rightarrow> [Documents output]
                            | OnChainStream content \<Rightarrow> [Text content]
                            | OnOther name \<Rightarrow> []) events)"

text \<open>
  Collaborators, configurations and heaps of the example turns: a stream that raises an
  \<open>Exception\<close> after the documents and two text chunks, a stream that is cancelled after
  two text chunks, a model constructor that raises, a model constructor that works, a
  chain wrapped around an inner chain with a retriever, and a chain whose \<open>retriever\<close>
  attribute is a string.
\<close>

definition failing_stream :: env where
  "failing_stream =
     \<lparr>ChatGroq = (\<lambda>temperature model_name max_tokens. raise (Exception ''no API key'')),
      astream_events = (\<lambda>h chain question debug session_id.
        ([OnRetrieverEnd [''doc''], OnOther ''on_chain_start'', OnChainStream ''Hel'',
          OnChainStream ''lo''],
         Raised (Exception ''connection reset'')))\<rparr>"

definition cancelled_stream :: env where
  "cancelled_stream =
     \<lparr>ChatGroq = (\<lambda>temperature model_name max_tokens. raise (Exception ''no API key'')),
      astream_events = (\<lambda>h chain question debug session_id.
        ([OnChainStream ''Hel'', OnChainStream ''lo''], Interrupted CancelledError))\<rparr>"

definition no_optimizations :: config where
  "no_optimizations =
     \<lparr>AUTO_COMPLEXITY_ROUTING = False, USE_TOKEN_OPTIMIZATION = False, DEBUG = False\<rparr>"

definition model_factory_fails :: env where
  "model_factory_fails =
     \<lparr>ChatGroq = (\<lambda>temperature model_name max_tokens. raise (Exception ''no API key'')),
      astream_events = (\<lambda>h chain question debug session_id.
        ([OnRetrieverEnd [''doc''], OnChainStream ''Hi''], Completed))\<rparr>"

definition model_factory_works :: env where
  "model_factory_works =
     \<lparr>ChatGroq = (\<lambda>temperature model_name max_tokens.
        new [(''__class__'', PStr ''ChatGroq''), (''model_name'', PStr model_name)]),
      astream_events = (\<lambda>h chain question debug session_id.
        ([OnRetrieverEnd [''doc''], OnChainStream ''Hi''], Completed))\<rparr>"

definition routing_only :: config where
  "routing_only =
     \<lparr>AUTO_COMPLEXITY_ROUTING = True, USE_TOKEN_OPTIMIZATION = False, DEBUG = False\<rparr>"

definition wired_heap :: heap where
  "wired_heap = [[(''runnable'', PRef 1)], [(''retriever'', PRef 2)], []]"

definition miswired_heap :: heap where
  "miswired_heap = [[(''retriever'', PStr ''not a retriever'')]]"

section \<open>Properties of the text normalizer\<close>

text \<open>
  C6: on the input \<open>What is embeddings???????? And how do they work??????!!!!\<close> the
  normalizer returns exactly \<open>What is embeddings? And how do they work?!\<close>: the run of
  question marks and the run of exclamation marks at the end are each collapsed to one
  character and are not merged. The order of the passes in \<^const>\<open>optimize_prompt\<close> is
  whitespace, stripping, dot runs, exclamation runs, question runs.
\<close>

theorem optimize_prompt_embeddings_scenario:
  "optimize_prompt ''What is embeddings???????? And how do they work??????!!!!''
     = ''What is embeddings? And how do they work?!''"
  by (simp add: optimize_prompt_def strip_def isspace_def)

text \<open>
  C10: the normalizer does not always shrink its input. A run of exactly two dots becomes
  three dots, so the output for \<open>..\<close> is \<open>...\<close>, which is strictly longer than the input.
\<close>

theorem optimize_prompt_can_grow:
  "optimize_prompt ''..'' = ''...'' \<and>
   length ''..'' < length (optimize_prompt ''..'') \<and>
   (\<exists>x. length x < length (optimize_prompt x))"
proof -
  have e: "optimize_prompt ''..'' = ''...''"
    by (simp add: optimize_prompt_def strip_def isspace_def)
  have l: "length ''..'' < length (optimize_prompt ''..'')"
    by (simp add: e)
  from e l show ?thesis by blast
qed

subsection \<open>Runs of one character\<close>

lemma rle_induct [case_names Nil Run]:
  assumes "P []"
    and "\<And>x n t. (t = [] \<or> hd t \<noteq> x) \<Longrightarrow> P t \<Longrightarrow> P (replicate (Suc n) x @ t)"
  shows "P (s :: 'a list)"
proof (induction "length s" arbitrary: s rule: less_induct)
  case less
  show ?case
  proof (cases s)
    case Nil
    then show ?thesis using assms(1) by simp
  next
    case (Cons x xs)
    define r where "r = takeWhile (\<lambda>y. y = x) xs"
    define t where "t = dropWhile (\<lambda>y. y = x) xs"
    have xs: "xs = r @ t" by (simp add: r_def t_def)
    have r: "r = replicate (length r) x"
      unfolding r_def by (induction xs) auto
    have t: "t = [] \<or> hd t \<noteq> x"
      unfolding t_def using hd_dropWhile [of "\<lambda>y. y = x" xs] by auto
    have "length t < length s" using Cons xs by simp
    then have "P t" by (rule less)
    from assms(2) [OF t this, of "length r"] r have "P (x # r @ t)" by simp
    then show ?thesis using Cons xs by simp
  qed
qed

lemma re_sub_run_skip1: "x \<noteq> c \<Longrightarrow> re_sub_run c rep (x # t) = x # re_sub_run c rep t"
  by (cases t) simp_all

lemma re_sub_run_skip:
  "x \<noteq> c \<Longrightarrow> re_sub_run c rep (replicate m x @ t) = replicate m x @ re_sub_run c rep t"
  by (induction m) (simp_all add: re_sub_run_skip1)

lemma re_sub_run_single:
  "t = [] \<or> hd t \<noteq> c \<Longrightarrow> re_sub_run c rep (c # t) = c # re_sub_run c rep t"
  by (cases t) auto

lemma re_sub_run_run:
  assumes "t = [] \<or> hd t \<noteq> c"
  shows "re_sub_run c rep (replicate (Suc n) c @ t)
           = (if n = 0 then [c] else rep) @ re_sub_run c rep t"
proof (cases n)
  case 0
  then show ?thesis using assms by (simp add: re_sub_run_single)
next
  case (Suc m)
  have "dropWhile (\<lambda>z. z = c) (replicate m c @ t) = t"
    using assms by (cases t) (auto simp: dropWhile_append)
  then show ?thesis using Suc by simp
qed

lemma re_sub_run_Nil_iff: "rep \<noteq> [] \<Longrightarrow> re_sub_run c rep s = [] \<longleftrightarrow> s = []"
  by (induction c rep s rule: re_sub_run.induct) auto

lemma re_sub_run_hd:
  "0 < k \<Longrightarrow> hd (re_sub_run c (replicate k c) s) = hd s"
  by (induction c "replicate k c" s rule: re_sub_run.induct) (auto simp: hd_append)

lemma re_sub_run_last:
  assumes "0 < k"
  shows "last (re_sub_run c (replicate k c) s) = last s"
proof (induction s rule: rle_induct)
  case Nil
  then show ?case by simp
next
  case (Run x n t)
  have ne: "re_sub_run c (replicate k c) t = [] \<longleftrightarrow> t = []"
    using assms by (simp add: re_sub_run_Nil_iff)
  show ?case
  proof (cases "x = c")
    case True
    then show ?thesis
      using Run assms ne by (simp add: re_sub_run_run del: replicate.simps)
  next
    case False
    then show ?thesis
      using Run ne by (simp add: re_sub_run_skip last_append del: replicate.simps)
  qed
qed

lemma re_sub_run_start:
  assumes "0 < k" and "t = [] \<or> hd t \<noteq> x"
  shows "re_sub_run c (replicate k c) t = [] \<or> hd (re_sub_run c (replicate k c) t) \<noteq> x"
  using assms by (auto simp: re_sub_run_hd re_sub_run_Nil_iff)

lemma re_sub_run_idem:
  assumes "0 < k"
  shows "re_sub_run c (replicate k c) (re_sub_run c (replicate k c) s)
           = re_sub_run c (replicate k c) s"
proof (induction s rule: rle_induct)
  case Nil
  then show ?case by simp
next
  case (Run x n t)
  let ?R = "re_sub_run c (replicate k c)"
  show ?case
  proof (cases "x = c")
    case False
    then show ?thesis using Run by (simp add: re_sub_run_skip del: replicate.simps)
  next
    case True
    have st: "?R t = [] \<or> hd (?R t) \<noteq> c"
      using re_sub_run_start [OF assms, of t c c] Run(1) True by simp
    obtain j where k: "k = Suc j" using assms by (cases k) auto
    have one: "?R (c # ?R t) = c # ?R t"
      using st Run(2) by (simp add: re_sub_run_single)
    have many: "?R (replicate k c @ ?R t) = replicate k c @ ?R t"
      using re_sub_run_run [OF st, of "replicate k c" j] Run(2) k by auto
    show ?thesis
    proof (cases "n = 0")
      case True
      then show ?thesis using \<open>x = c\<close> Run(1) one by (simp add: re_sub_run_single)
    next
      case False
      then show ?thesis
        using \<open>x = c\<close> re_sub_run_run [OF Run(1) [unfolded \<open>x = c\<close>], of "replicate k c" n] many
        by simp
    qed
  qed
qed

lemma re_sub_run_commute:
  assumes "0 < k" and "0 < m" and "c \<noteq> d"
  shows "re_sub_run c (replicate k c) (re_sub_run d (replicate m d) s)
           = re_sub_run d (replicate m d) (re_sub_run c (replicate k c) s)"
proof (induction s rule: rle_induct)
  case Nil
  then show ?case by simp
next
  case (Run x n t)
  let ?C = "re_sub_run c (replicate k c)"
  let ?D = "re_sub_run d (replicate m d)"
  have stC: "?C t = [] \<or> hd (?C t) \<noteq> x"
    using re_sub_run_start [OF assms(1) Run(1)] .
  have stD: "?D t = [] \<or> hd (?D t) \<noteq> x"
    using re_sub_run_start [OF assms(2) Run(1)] .
  consider "x = c" | "x = d" | "x \<noteq> c" "x \<noteq> d" by blast
  then show ?case
  proof cases
    case 1
    then have xd: "x \<noteq> d" using assms(3) by simp
    have a: "?D (replicate (Suc n) x @ t) = replicate (Suc n) x @ ?D t"
      using xd by (rule re_sub_run_skip)
    have b: "?C (replicate (Suc n) x @ ?D t) = (if n = 0 then [c] else replicate k c) @ ?C (?D t)"
      using re_sub_run_run [OF stD [unfolded 1]] 1 by simp
    have c': "?C (replicate (Suc n) x @ t) = (if n = 0 then [c] else replicate k c) @ ?C t"
      using re_sub_run_run [OF Run(1) [unfolded 1]] 1 by simp
    have d': "?D ((if n = 0 then [c] else replicate k c) @ ?C t)
                = (if n = 0 then [c] else replicate k c) @ ?D (?C t)"
      using re_sub_run_skip [of c d "replicate m d" k "?C t"]
            re_sub_run_skip1 [of c d "replicate m d" "?C t"] assms(3) by simp
    show ?thesis unfolding a b c' d' using Run(2) by simp
  next
    case 2
    then have xc: "x \<noteq> c" using assms(3) by simp
    have a: "?C (replicate (Suc n) x @ t) = replicate (Suc n) x @ ?C t"
      using xc by (rule re_sub_run_skip)
    have b: "?D (replicate (Suc n) x @ ?C t) = (if n = 0 then [d] else replicate m d) @ ?D (?C t)"
      using re_sub_run_run [OF stC [unfolded 2]] 2 by simp
    have c': "?D (replicate (Suc n) x @ t) = (if n = 0 then [d] else replicate m d) @ ?D t"
      using re_sub_run_run [OF Run(1) [unfolded 2]] 2 by simp
    have d': "?C ((if n = 0 then [d] else replicate m d) @ ?D t)
                = (if n = 0 then [d] else replicate m d) @ ?C (?D t)"
      using re_sub_run_skip [of d c "replicate k c" m "?D t"]
            re_sub_run_skip1 [of d c "replicate k c" "?D t"] assms(3) by simp
    show ?thesis unfolding a b c' d' using Run(2) by simp
  next
    case 3
    then show ?thesis
      using Run(2) by (simp add: re_sub_run_skip del: replicate.simps)
  qed
qed


lemma spaces_ok_Cons:
  "spaces_ok (x # t) =
     ((isspace x \<longrightarrow> x = CHR '' '' \<and> (t \<noteq> [] \<longrightarrow> \<not> isspace (hd t))) \<and> spaces_ok t)"
  by (cases t) auto

lemma spaces_ok_append:
  "u \<noteq> [] \<Longrightarrow> v \<noteq> [] \<Longrightarrow>
   spaces_ok (u @ v) = (spaces_ok u \<and> spaces_ok v \<and> \<not> (isspace (last u) \<and> isspace (hd v)))"
proof (induction u rule: spaces_ok.induct)
  case 1
  then show ?case by simp
next
  case (2 x)
  then show ?case by (cases v) auto
next
  case (3 x y zs)
  then show ?case by auto
qed

lemma spaces_ok_appendD1: "spaces_ok (u @ v) \<Longrightarrow> spaces_ok u"
  by (cases "u = []"; cases "v = []") (simp_all add: spaces_ok_append)

lemma spaces_ok_appendD2: "spaces_ok (u @ v) \<Longrightarrow> spaces_ok v"
  by (cases "u = []"; cases "v = []") (simp_all add: spaces_ok_append)

lemma re_sub_spaces_hd:
  "t \<noteq> [] \<Longrightarrow> \<not> isspace (hd t) \<Longrightarrow> re_sub_spaces t \<noteq> [] \<and> hd (re_sub_spaces t) = hd t"
  by (cases t) auto

lemma re_sub_spaces_start:
  "t = [] \<or> \<not> isspace (hd t) \<Longrightarrow>
   re_sub_spaces t \<noteq> [] \<longrightarrow> \<not> isspace (hd (re_sub_spaces t))"
  by (cases t) auto

lemma spaces_ok_re_sub_spaces: "spaces_ok (re_sub_spaces s)"
proof (induction s rule: re_sub_spaces.induct)
  case 1
  then show ?case by simp
next
  case (2 x xs)
  show ?case
  proof (cases "isspace x")
    case True
    let ?t = "dropWhile isspace xs"
    have "?t = [] \<or> \<not> isspace (hd ?t)"
      using hd_dropWhile [of isspace xs] by blast
    then have "re_sub_spaces ?t \<noteq> [] \<longrightarrow> \<not> isspace (hd (re_sub_spaces ?t))"
      by (rule re_sub_spaces_start)
    then show ?thesis using True 2 by (simp add: spaces_ok_Cons)
  next
    case False
    then show ?thesis using 2 by (simp add: spaces_ok_Cons)
  qed
qed

lemma re_sub_spaces_id: "spaces_ok s \<Longrightarrow> re_sub_spaces s = s"
  by (induction s rule: spaces_ok.induct) auto

lemma strip_sublist: "\<exists>a b. s = a @ strip s @ b"
proof -
  let ?u = "dropWhile isspace s"
  have "strip s @ rev (takeWhile isspace (rev ?u))
          = rev (takeWhile isspace (rev ?u) @ dropWhile isspace (rev ?u))"
    unfolding strip_def by (simp only: rev_append)
  also have "\<dots> = ?u" by (simp only: takeWhile_dropWhile_id rev_rev_ident)
  finally have "s = takeWhile isspace s @ strip s @ rev (takeWhile isspace (rev ?u))"
    by simp
  then show ?thesis by blast
qed

lemma spaces_ok_strip: "spaces_ok s \<Longrightarrow> spaces_ok (strip s)"
  using strip_sublist [of s] spaces_ok_appendD1 spaces_ok_appendD2 by metis

lemma strip_ok_strip: "strip_ok (strip s)"
proof -
  let ?u = "dropWhile isspace s"
  let ?w = "dropWhile isspace (rev ?u)"
  show ?thesis
  proof (cases "?w = []")
    case True
    then show ?thesis by (simp add: strip_ok_def strip_def)
  next
    case False
    then have hw: "\<not> isspace (hd ?w)" using hd_dropWhile [of isspace "rev ?u"] by blast
    have l: "last (strip s) = hd ?w" using False by (simp add: strip_def last_rev)
    have "dropWhile isspace (rev u) \<noteq> [] \<Longrightarrow> u \<noteq> []" for u :: string by auto
    from this [OF False] have une: "?u \<noteq> []" .
    then have hu: "\<not> isspace (hd ?u)" using hd_dropWhile [of isspace s] by blast
    then have nsp: "\<not> isspace (last (rev ?u))" using une by (simp add: last_rev)
    have "last (rev ?u) \<in> set (rev ?u)" using une by (intro last_in_set) simp
    then have "last ?w = last (rev ?u)" using nsp by (rule dropWhile_last)
    then have "hd (strip s) = hd ?u" using False une by (simp add: strip_def hd_rev last_rev)
    with hu hw l False show ?thesis by (simp add: strip_ok_def strip_def)
  qed
qed

lemma strip_id: "strip_ok s \<Longrightarrow> strip s = s"
proof (cases "s = []")
  case True
  then show ?thesis by (simp add: strip_def)
next
  case False
  assume "strip_ok s"
  with False have h: "\<not> isspace (hd s)" and l: "\<not> isspace (last s)"
    by (simp_all add: strip_ok_def)
  have 1: "dropWhile isspace s = s" using h by (simp add: dropWhile_eq_self_iff)
  have 2: "dropWhile isspace (rev s) = rev s"
    using l False by (simp add: dropWhile_eq_self_iff hd_rev)
  show ?thesis by (simp add: strip_def 1 2)
qed

lemma spaces_ok_re_sub_run:
  assumes "0 < k" and "\<not> isspace c" and "spaces_ok s"
  shows "spaces_ok (re_sub_run c (replicate k c) s)"
  using assms(3)
proof (induction s rule: rle_induct)
  case Nil
  then show ?case by simp
next
  case (Run x n t)
  let ?R = "re_sub_run c (replicate k c)"
  have cs: "spaces_ok (replicate j c @ u) = spaces_ok u" for j u
    using assms(2) by (induction j) (simp_all add: spaces_ok_Cons)
  have okt: "spaces_ok t" using Run(3) by (rule spaces_ok_appendD2)
  then have okR: "spaces_ok (?R t)" by (rule Run(2))
  show ?case
  proof (cases "x = c")
    case True
    have "spaces_ok ((if n = 0 then [c] else replicate k c) @ ?R t)"
      using cs [of 1 "?R t"] cs [of k "?R t"] okR by simp
    then show ?thesis using True Run(1) by (simp add: re_sub_run_run del: replicate.simps)
  next
    case False
    have e: "?R (replicate (Suc n) x @ t) = replicate (Suc n) x @ ?R t"
      using False by (rule re_sub_run_skip)
    show ?thesis
    proof (cases "t = []")
      case True
      then show ?thesis using Run(3) e by simp
    next
      case tne: False
      then have Rne: "?R t \<noteq> []" using assms(1) by (simp add: re_sub_run_Nil_iff)
      have "hd (?R t) = hd t" using assms(1) by (rule re_sub_run_hd)
      then show ?thesis
        using Run(3) okR tne Rne unfolding e
        by (simp add: spaces_ok_append del: replicate.simps)
    qed
  qed
qed

lemma strip_ok_re_sub_run:
  assumes "0 < k" and "strip_ok s"
  shows "strip_ok (re_sub_run c (replicate k c) s)"
  using assms by (auto simp: strip_ok_def re_sub_run_hd re_sub_run_last re_sub_run_Nil_iff)

text \<open>
  C5: the normalizer is idempotent: for every string \<open>x\<close>, normalizing the normalized
  string changes nothing.
\<close>

theorem optimize_prompt_idempotent: "optimize_prompt (optimize_prompt x) = optimize_prompt x"
proof -
  let ?D = "re_sub_run (CHR ''.'') (replicate 3 (CHR ''.''))"
  let ?B = "re_sub_run (CHR ''!'') (replicate 1 (CHR ''!''))"
  let ?Q = "re_sub_run (CHR ''?'') (replicate 1 (CHR ''?''))"
  define w where "w = strip (re_sub_spaces x)"
  define y where "y = ?Q (?B (?D w))"
  have opt: "optimize_prompt z = ?Q (?B (?D (strip (re_sub_spaces z))))" for z
    by (simp add: optimize_prompt_def numeral_3_eq_3)
  have y: "optimize_prompt x = y" by (simp add: opt y_def w_def)
  have "spaces_ok w" unfolding w_def by (intro spaces_ok_strip spaces_ok_re_sub_spaces)
  then have sy: "spaces_ok y"
    unfolding y_def by (intro spaces_ok_re_sub_run) (simp_all add: isspace_def)
  have "strip_ok w" unfolding w_def by (rule strip_ok_strip)
  then have ty: "strip_ok y" unfolding y_def by (intro strip_ok_re_sub_run) simp_all
  have W: "strip (re_sub_spaces y) = y"
    using sy ty by (simp add: re_sub_spaces_id strip_id)
  have "?D y = ?Q (?D (?B (?D w)))"
    unfolding y_def by (rule re_sub_run_commute) simp_all
  also have "?D (?B (?D w)) = ?B (?D (?D w))"
    by (rule re_sub_run_commute) simp_all
  also have "?D (?D w) = ?D w" by (rule re_sub_run_idem) simp
  finally have D: "?D y = y" by (simp add: y_def)
  have "?B y = ?Q (?B (?B (?D w)))"
    unfolding y_def by (rule re_sub_run_commute) simp_all
  also have "?B (?B (?D w)) = ?B (?D w)" by (rule re_sub_run_idem) simp
  finally have B: "?B y = y" by (simp add: y_def)
  have Q: "?Q y = y" unfolding y_def by (rule re_sub_run_idem) simp
  have "optimize_prompt y = ?Q (?B (?D (strip (re_sub_spaces y))))" by (rule opt)
  also have "\<dots> = y" by (simp only: W D B Q)
  finally show ?thesis by (simp add: y)
qed

section \<open>Properties of rounding\<close>

text \<open>
  The exponent \<open>binade x\<close> is the one whose power of two brackets \<open>x\<close>; rounding is
  monotone and idempotent, moves a number by at most half a unit in the last place, and
  is determined by the nearest integer to the scaled argument.
\<close>

lemma of_int_le_pow2: "(n::int) \<le> 2 ^ k \<Longrightarrow> of_int n \<le> (2::real) ^ k"
  using of_int_le_iff [of n "2 ^ k", where ?'a = real] by simp

lemma pow2_le_of_int: "2 ^ k \<le> (n::int) \<Longrightarrow> (2::real) ^ k \<le> of_int n"
  using of_int_le_iff [of "2 ^ k" n, where ?'a = real] by simp

lemma binade_bounds:
  assumes "0 < x"
  shows "2 powi binade x \<le> x \<and> x < 2 powi (binade x + 1)"
proof (cases "1 \<le> x")
  case True
  then have p: "0 < \<lfloor>x\<rfloor>" by simp
  define b where "b = bitlen \<lfloor>x\<rfloor>"
  from bitlen_bounds [OF p]
  have lo: "2 ^ nat (b - 1) \<le> \<lfloor>x\<rfloor>" and hi: "\<lfloor>x\<rfloor> < 2 ^ nat b" by (simp_all add: b_def)
  have b1: "1 \<le> b" using p by (simp add: b_def bitlen_alt_def)
  have e: "binade x = b - 1" using True by (simp add: binade_def b_def)
  have p1: "(2::real) powi (b - 1) = 2 ^ nat (b - 1)" using b1 by (simp add: power_int_def)
  have p2: "(2::real) powi b = 2 ^ nat b" using b1 by (simp add: power_int_def)
  have "(2::real) ^ nat (b - 1) \<le> of_int \<lfloor>x\<rfloor>" using lo by (rule pow2_le_of_int)
  also have "\<dots> \<le> x" by simp
  finally have 1: "2 powi (b - 1) \<le> x" by (simp only: p1)
  have "\<lfloor>x\<rfloor> + 1 \<le> 2 ^ nat b" using hi by simp
  then have "of_int (\<lfloor>x\<rfloor> + 1) \<le> (2::real) ^ nat b" by (rule of_int_le_pow2)
  then have le: "of_int \<lfloor>x\<rfloor> + 1 \<le> (2::real) ^ nat b" by simp
  have xlt: "x < of_int \<lfloor>x\<rfloor> + 1" by linarith
  from le xlt have 2: "x < 2 powi b" by (simp only: p2)
  show ?thesis using 1 2 by (simp add: e)
next
  case False
  with assms have x1: "x < 1" by simp
  define n where "n = \<lceil>1 / x\<rceil>"
  have y1: "1 < 1 / x" using assms x1 by simp
  then have n2: "2 \<le> n" unfolding n_def by linarith
  define j where "j = bitlen (n - 1)"
  have p: "0 < n - 1" using n2 by simp
  from bitlen_bounds [OF p]
  have lo: "2 ^ nat (j - 1) \<le> n - 1" and hi: "n - 1 < 2 ^ nat j" by (simp_all add: j_def)
  have j1: "1 \<le> j" using p by (simp add: j_def bitlen_alt_def)
  have e: "binade x = - j" using False by (simp add: binade_def j_def n_def)
  have p1: "(2::real) powi (- j) = 1 / 2 ^ nat j"
    using j1 by (simp add: power_int_def field_simps)
  have p2: "(2::real) powi (- j + 1) = 1 / 2 ^ nat (j - 1)"
  proof (cases "j = 1")
    case True
    then show ?thesis by simp
  next
    case False
    then have "- j + 1 < 0" "nat (- (- j + 1)) = nat (j - 1)" using j1 by simp_all
    then show ?thesis by (simp add: power_int_def field_simps)
  qed
  have "n \<le> 2 ^ nat j" using hi by simp
  then have "of_int n \<le> (2::real) ^ nat j" by (rule of_int_le_pow2)
  moreover have "1 / x \<le> of_int n" unfolding n_def by (rule le_of_int_ceiling)
  ultimately have "1 / x \<le> 2 ^ nat j" by linarith
  then have "1 \<le> 2 ^ nat j * x" using assms by (simp add: field_simps)
  then have 1: "2 powi (- j) \<le> x" unfolding p1 by (simp add: field_simps)
  have "(2::int) ^ nat (j - 1) < n" using lo by simp
  then have "of_int (2 ^ nat (j - 1)) < 1 / x" unfolding n_def by (simp only: less_ceiling_iff)
  then have "2 ^ nat (j - 1) * x < 1" using assms by (simp add: field_simps)
  then have 2: "x < 2 powi (- j + 1)" unfolding p2 by (simp add: field_simps)
  show ?thesis using 1 2 by (simp add: e)
qed

lemma powi2_less_cancel:
  assumes "(2::real) powi m < 2 powi n"
  shows "m < n"
proof (rule ccontr)
  assume "\<not> m < n"
  then have "n \<le> m" by simp
  then have "(2::real) powi n \<le> 2 powi m" by (intro power_int_increasing) auto
  with assms show False by simp
qed

lemma binade_unique:
  assumes "2 powi k \<le> x" and "x < 2 powi (k + 1)"
  shows "binade x = k"
proof -
  have x: "0 < x" using assms(1) by (rule less_le_trans [rotated]) simp
  note b = binade_bounds [OF x]
  have "(2::real) powi k < 2 powi (binade x + 1)" using assms(1) b by linarith
  then have 1: "k < binade x + 1" by (rule powi2_less_cancel)
  have "(2::real) powi binade x < 2 powi (k + 1)" using assms(2) b by linarith
  then have 2: "binade x < k + 1" by (rule powi2_less_cancel)
  from 1 2 show ?thesis by simp
qed

lemma round_half_even_error: "\<bar>of_int (round_half_even y) - y\<bar> \<le> 1 / 2"
  unfolding round_half_even_def Let_def by (auto simp: abs_if) linarith+

lemma round_half_even_of_int [simp]: "round_half_even (of_int n) = n"
  by (simp add: round_half_even_def)

lemma round_half_even_mono:
  assumes "x \<le> y"
  shows "round_half_even x \<le> round_half_even y"
proof (cases "\<lfloor>x\<rfloor> = \<lfloor>y\<rfloor>")
  case True
  then show ?thesis using assms by (auto simp: round_half_even_def Let_def)
next
  case False
  then have "\<lfloor>x\<rfloor> + 1 \<le> \<lfloor>y\<rfloor>" using floor_mono [OF assms] by simp
  moreover have "round_half_even x \<le> \<lfloor>x\<rfloor> + 1" by (simp add: round_half_even_def Let_def)
  moreover have "\<lfloor>y\<rfloor> \<le> round_half_even y" by (simp add: round_half_even_def Let_def)
  ultimately show ?thesis by linarith
qed

lemma fl_zero [simp]: "fl 0 = 0"
  by (simp add: fl_def)

lemma fl_pos:
  "0 < x \<Longrightarrow>
   fl x = of_int (round_half_even (x / 2 powi (binade x - 52))) * 2 powi (binade x - 52)"
  by (simp add: fl_def Let_def)

lemma powi_shift: "(2::real) powi (k - 52) = 2 powi k / 2 ^ 52"
  by (simp add: power_int_diff)

lemma powi_succ: "(2::real) powi (k + 1) = 2 * 2 powi k"
  by (simp add: power_int_add)

lemma fl_eval:
  assumes "2 powi k \<le> x" and "x < 2 powi (k + 1)"
    and "round_half_even (x / 2 powi (k - 52)) = m"
  shows "fl x = of_int m * 2 powi (k - 52)"
proof -
  have x: "0 < x" using assms(1) by (rule less_le_trans [rotated]) simp
  have "binade x = k" using assms(1,2) by (rule binade_unique)
  then show ?thesis using fl_pos [OF x] assms(3) by simp
qed

lemma fl_error:
  assumes "0 \<le> x"
  shows "\<bar>fl x - x\<bar> \<le> x / 2 ^ 53"
proof (cases "x = 0")
  case True
  then show ?thesis by simp
next
  case False
  with assms have x: "0 < x" by simp
  define q :: real where "q = 2 powi (binade x - 52)"
  have q: "0 < q" by (simp add: q_def)
  have "q * 2 ^ 52 = 2 powi binade x" by (simp add: q_def powi_shift)
  then have qx: "q * 2 ^ 52 \<le> x" using binade_bounds [OF x] by simp
  have "(of_int (round_half_even (x / q)) - x / q) * q = of_int (round_half_even (x / q)) * q - x"
    using q by (simp add: left_diff_distrib)
  then have "\<bar>of_int (round_half_even (x / q)) * q - x\<bar>
               = \<bar>of_int (round_half_even (x / q)) - x / q\<bar> * \<bar>q\<bar>"
    by (simp only: abs_mult [symmetric])
  then have "\<bar>fl x - x\<bar> = \<bar>of_int (round_half_even (x / q)) - x / q\<bar> * q"
    using q by (simp add: fl_pos [OF x] q_def [symmetric])
  also have "\<dots> \<le> (1 / 2) * q"
    using q round_half_even_error [of "x / q"] by (intro mult_right_mono) simp_all
  also have "\<dots> \<le> x / 2 ^ 53" using qx by simp
  finally show ?thesis .
qed

lemma fl_range:
  assumes "0 < x"
  shows "2 powi binade x \<le> fl x \<and> fl x \<le> 2 powi (binade x + 1)"
proof -
  define q :: real where "q = 2 powi (binade x - 52)"
  have q: "0 < q" by (simp add: q_def)
  have e: "q * 2 ^ 52 = 2 powi binade x" by (simp add: q_def powi_shift)
  note b = binade_bounds [OF assms]
  have "q * 2 ^ 52 \<le> x" using b e by simp
  then have lo: "of_int (2 ^ 52) \<le> x / q" using q by (simp add: field_simps)
  have "x < 2 * 2 powi binade x" using b by (simp only: powi_succ)
  then have "x \<le> q * 2 ^ 53" using e by simp
  then have hi: "x / q \<le> of_int (2 ^ 53)" using q by (simp add: field_simps)
  have "round_half_even (of_int (2 ^ 52)) \<le> round_half_even (x / q)"
    using lo by (rule round_half_even_mono)
  then have 1: "2 ^ 52 \<le> round_half_even (x / q)" by (simp only: round_half_even_of_int)
  have "round_half_even (x / q) \<le> round_half_even (of_int (2 ^ 53))"
    using hi by (rule round_half_even_mono)
  then have 2: "round_half_even (x / q) \<le> 2 ^ 53" by (simp only: round_half_even_of_int)
  have f: "fl x = of_int (round_half_even (x / q)) * q" by (simp add: fl_pos [OF assms] q_def)
  have "(2::real) ^ 52 \<le> of_int (round_half_even (x / q))" using 1 by (rule pow2_le_of_int)
  then have "2 ^ 52 * q \<le> fl x" unfolding f using q by (intro mult_right_mono) simp_all
  moreover have "of_int (round_half_even (x / q)) \<le> (2::real) ^ 53" using 2 by (rule of_int_le_pow2)
  then have "fl x \<le> 2 ^ 53 * q" unfolding f using q by (intro mult_right_mono) simp_all
  ultimately show ?thesis using e by (simp add: powi_succ mult.commute)
qed

lemma fl_nonneg: "0 \<le> x \<Longrightarrow> 0 \<le> fl x"
proof (cases "x = 0")
  case False
  assume "0 \<le> x"
  with False have "0 < x" by simp
  from fl_range [OF this] have "2 powi binade x \<le> fl x" ..
  moreover have "(0::real) \<le> 2 powi binade x" by simp
  ultimately show ?thesis by linarith
qed simp

lemma binade_mono:
  assumes "0 < x" and "x \<le> y"
  shows "binade x \<le> binade y"
proof -
  have y: "0 < y" using assms by simp
  have "(2::real) powi binade x < 2 powi (binade y + 1)"
    using binade_bounds [OF assms(1)] binade_bounds [OF y] assms(2) by linarith
  then have "binade x < binade y + 1" by (rule powi2_less_cancel)
  then show ?thesis by simp
qed

lemma fl_mono:
  assumes "0 \<le> x" and "x \<le> y"
  shows "fl x \<le> fl y"
proof (cases "x = 0")
  case True
  then show ?thesis using assms fl_nonneg [of y] by simp
next
  case False
  with assms have x: "0 < x" and y: "0 < y" by simp_all
  show ?thesis
  proof (cases "binade x = binade y")
    case True
    define q :: real where "q = 2 powi (binade y - 52)"
    have q: "0 < q" by (simp add: q_def)
    have "x / q \<le> y / q" using assms(2) q by (simp add: divide_right_mono)
    then have "round_half_even (x / q) \<le> round_half_even (y / q)" by (rule round_half_even_mono)
    then have "(of_int (round_half_even (x / q)) :: real) \<le> of_int (round_half_even (y / q))"
      by simp
    then have "of_int (round_half_even (x / q)) * q \<le> of_int (round_half_even (y / q)) * q"
      using q by (intro mult_right_mono) simp_all
    then show ?thesis by (simp add: fl_pos [OF x] fl_pos [OF y] True q_def)
  next
    case False
    then have "binade x + 1 \<le> binade y" using binade_mono [OF x assms(2)] by simp
    then have "(2::real) powi (binade x + 1) \<le> 2 powi binade y"
      by (intro power_int_increasing) simp_all
    then show ?thesis using fl_range [OF x] fl_range [OF y] by linarith
  qed
qed

lemma fl_representable:
  assumes "2 ^ 52 \<le> m" and "m < 2 ^ 53"
  shows "fl (of_int m * 2 powi k) = of_int m * 2 powi k"
proof -
  have lo: "(2::real) ^ 52 \<le> of_int m" using assms(1) by (rule pow2_le_of_int)
  have "m + 1 \<le> 2 ^ 53" using assms(2) by simp
  then have "of_int (m + 1) \<le> (2::real) ^ 53" by (rule of_int_le_pow2)
  then have hi: "of_int m < (2::real) ^ 53" by simp
  have p: "(0::real) < 2 powi k" by simp
  have e: "(2::real) powi (k + 52) = 2 ^ 52 * 2 powi k" by (simp add: power_int_add)
  have e1: "(2::real) powi (k + 52 + 1) = 2 ^ 53 * 2 powi k" by (simp add: power_int_add)
  have 1: "(2::real) powi (k + 52) \<le> of_int m * 2 powi k"
    unfolding e using lo p by (intro mult_right_mono) simp_all
  have 2: "of_int m * 2 powi k < (2::real) powi (k + 52 + 1)"
    unfolding e1 using hi p by (intro mult_strict_right_mono) simp_all
  have 3: "round_half_even (of_int m * 2 powi k / (2::real) powi (k + 52 - 52)) = m" by simp
  from fl_eval [OF 1 2 3] show ?thesis by simp
qed

lemma fl_idem:
  assumes "0 \<le> x"
  shows "fl (fl x) = fl x"
proof (cases "x = 0")
  case True
  then show ?thesis by simp
next
  case False
  with assms have x: "0 < x" by simp
  define q :: real where "q = 2 powi (binade x - 52)"
  define m where "m = round_half_even (x / q)"
  have f: "fl x = of_int m * 2 powi (binade x - 52)"
    by (simp add: fl_pos [OF x] m_def q_def)
  have q: "0 < q" by (simp add: q_def)
  have e: "q * 2 ^ 52 = 2 powi binade x" by (simp add: q_def powi_shift)
  note b = binade_bounds [OF x]
  have "q * 2 ^ 52 \<le> x" using b e by simp
  then have lo: "of_int (2 ^ 52) \<le> x / q" using q by (simp add: field_simps)
  have "x < 2 * 2 powi binade x" using b by (simp only: powi_succ)
  then have "x \<le> q * 2 ^ 53" using e by simp
  then have hi: "x / q \<le> of_int (2 ^ 53)" using q by (simp add: field_simps)
  have "round_half_even (of_int (2 ^ 52)) \<le> m" unfolding m_def using lo by (rule round_half_even_mono)
  then have 1: "2 ^ 52 \<le> m" by (simp only: round_half_even_of_int)
  have "m \<le> round_half_even (of_int (2 ^ 53))" unfolding m_def using hi by (rule round_half_even_mono)
  then have 2: "m \<le> 2 ^ 53" by (simp only: round_half_even_of_int)
  show ?thesis
  proof (cases "m = 2 ^ 53")
    case False
    with 2 have "m < 2 ^ 53" by simp
    from fl_representable [OF 1 this] show ?thesis by (simp add: f)
  next
    case True
    have "(2::real) powi (binade x - 52 + 1) = 2 * 2 powi (binade x - 52)"
      by (rule powi_succ)
    then have "fl x = of_int (2 ^ 52) * 2 powi (binade x - 52 + 1)"
      unfolding f True by simp
    moreover have "fl (of_int (2 ^ 52) * 2 powi (binade x - 52 + 1))
                     = of_int (2 ^ 52) * 2 powi (binade x - 52 + 1)"
      by (rule fl_representable) simp_all
    ultimately show ?thesis by simp
  qed
qed

lemma fl_1 [simp]: "fl 1 = 1"
  using fl_representable [of "2 ^ 52" "- 52"] by simp

lemma fl_20 [simp]: "fl 20 = 20"
  using fl_representable [of "5 * 2 ^ 50" "- 48"] by simp

lemma round_half_even_near:
  assumes "\<bar>y - of_int m\<bar> < 1 / 2"
  shows "round_half_even y = m"
proof -
  have "\<bar>of_int (round_half_even y) - y\<bar> \<le> 1 / 2" by (rule round_half_even_error)
  with assms have "\<bar>(of_int (round_half_even y) :: real) - of_int m\<bar> < 1" by linarith
  then have "\<bar>(of_int (round_half_even y - m) :: real)\<bar> < 1" by simp
  then have "\<bar>round_half_even y - m\<bar> < 1" by linarith
  then show ?thesis by simp
qed

lemma round_half_even_tie:
  assumes "even m"
  shows "round_half_even (of_int m + 1 / 2) = m"
proof -
  have "\<lfloor>(of_int m :: real) + 1 / 2\<rfloor> = m" by linarith
  then show ?thesis using assms by (simp add: round_half_even_def Let_def)
qed

lemma fl_near:
  assumes "2 powi k \<le> x" and "x < 2 powi (k + 1)"
    and "\<bar>x / 2 powi (k - 52) - of_int m\<bar> < 1 / 2"
  shows "fl x = of_int m * 2 powi (k - 52)"
  using assms(1,2) round_half_even_near [OF assms(3)] by (rule fl_eval)

lemma fl_tie:
  assumes "2 powi k \<le> x" and "x < 2 powi (k + 1)"
    and "x / 2 powi (k - 52) = of_int m + 1 / 2" and "even m"
  shows "fl x = of_int m * 2 powi (k - 52)"
proof -
  have "round_half_even (x / 2 powi (k - 52)) = m"
    unfolding assms(3) using assms(4) by (rule round_half_even_tie)
  with assms(1,2) show ?thesis by (rule fl_eval)
qed

lemma round_half_even_tie_odd:
  assumes "odd m"
  shows "round_half_even (of_int m + 1 / 2) = m + 1"
proof -
  have "\<lfloor>(of_int m :: real) + 1 / 2\<rfloor> = m" by linarith
  then show ?thesis using assms by (simp add: round_half_even_def Let_def)
qed

lemma fl_tie_odd:
  assumes "2 powi k \<le> x" and "x < 2 powi (k + 1)"
    and "x / 2 powi (k - 52) = of_int m + 1 / 2" and "odd m"
  shows "fl x = of_int (m + 1) * 2 powi (k - 52)"
proof -
  have "round_half_even (x / 2 powi (k - 52)) = m + 1"
    unfolding assms(3) using assms(4) by (rule round_half_even_tie_odd)
  with assms(1,2) show ?thesis by (rule fl_eval)
qed

lemma fl_020: "fl (1 / 5) = 3602879701896397 / 2 ^ 54"
  using fl_near [of "- 3" "1 / 5" 7205759403792794] by simp

lemma fl_070: "fl (7 / 10) = 3152519739159347 / 2 ^ 52"
  using fl_near [of "- 1" "7 / 10" 6305039478318694] by simp

lemma fl_010: "fl (1 / 10) = 3602879701896397 / 2 ^ 55"
  using fl_near [of "- 4" "1 / 10" 7205759403792794] by simp

lemma fl_030: "fl (3 / 10) = 5404319552844595 / 2 ^ 54"
  using fl_near [of "- 2" "3 / 10" 5404319552844595] by simp

lemma fl_020_plus_070: "fl (3602879701896397 / 2 ^ 54 + 3152519739159347 / 2 ^ 52)
                 = 8106479329266892 / 2 ^ 53"
  using fl_tie [of "- 1" "3602879701896397 / 2 ^ 54 + 3152519739159347 / 2 ^ 52"
                   8106479329266892] by simp

lemma fl_sum_max: "fl (8106479329266892 / 2 ^ 53 + 3602879701896397 / 2 ^ 55)
                 = 9007199254740991 / 2 ^ 53"
  using fl_near [of "- 1" "8106479329266892 / 2 ^ 53 + 3602879701896397 / 2 ^ 55"
                    9007199254740991] by simp

lemma fl_020_plus_010: "fl (3602879701896397 / 2 ^ 54 + 3602879701896397 / 2 ^ 55)
                 = 5404319552844596 / 2 ^ 54"
  using fl_tie_odd [of "- 2" "3602879701896397 / 2 ^ 54 + 3602879701896397 / 2 ^ 55"
                        5404319552844595] by simp

lemma fl_3 [simp]: "fl 3 = 3"
  using fl_representable [of "3 * 2 ^ 51" "- 51"] by simp

lemma fl_half [simp]: "fl (1 / 2) = 1 / 2"
  using fl_representable [of "2 ^ 52" "- 53"] by simp

lemma fl_5_8: "fl (5 / 8) = 5 / 8"
  using fl_representable [of "5 * 2 ^ 50" "- 53"] by simp

lemma fl_5_16: "fl (5 / 16) = 5 / 16"
  using fl_representable [of "5 * 2 ^ 50" "- 54"] by simp

lemma fl_1_4: "fl (1 / 4) = 1 / 4"
  using fl_representable [of "2 ^ 52" "- 54"] by simp

lemma fl_1_8: "fl (1 / 8) = 1 / 8"
  using fl_representable [of "2 ^ 52" "- 55"] by simp

lemma fl_1_32: "fl (1 / 32) = 1 / 32"
  using fl_representable [of "2 ^ 52" "- 57"] by simp

lemma fl_5_32: "fl (5 / 32) = 5 / 32"
  using fl_representable [of "5 * 2 ^ 50" "- 55"] by simp

lemma threshold_exact:
  assumes "0 \<le> z"
  shows "(fl (3 / 10) < fl z) = (3 / 10 < fl z)"
proof
  assume a: "fl (3 / 10) < fl z"
  show "3 / 10 < fl z"
  proof (rule ccontr)
    assume "\<not> 3 / 10 < fl z"
    then have "fl z \<le> 3 / 10" by simp
    with fl_nonneg [OF assms] have "fl (fl z) \<le> fl (3 / 10)" by (rule fl_mono)
    then show False using a by (simp add: fl_idem [OF assms])
  qed
next
  assume "3 / 10 < fl z"
  moreover have "fl (3 / 10) \<le> 3 / 10" by (simp add: fl_030)
  ultimately show "fl (3 / 10) < fl z" by linarith
qed

section \<open>Properties of the complexity scorer\<close>

lemma startswith_iff: "startswith s p \<longleftrightarrow> (\<exists>r. s = p @ r)"
  by (induction s p rule: startswith.induct) auto

lemma contains_iff: "contains sub s \<longleftrightarrow> (\<exists>p r. s = p @ sub @ r)"
proof (induction s)
  case Nil
  then show ?case by auto
next
  case (Cons x xs)
  show ?case
  proof
    assume "contains sub (x # xs)"
    then consider "startswith (x # xs) sub" | "contains sub xs" by auto
    then show "\<exists>p r. x # xs = p @ sub @ r"
    proof cases
      case 1
      then obtain r where "x # xs = sub @ r" by (auto simp: startswith_iff)
      then have "x # xs = [] @ sub @ r" by simp
      then show ?thesis by blast
    next
      case 2
      then obtain p r where "xs = p @ sub @ r" using Cons.IH by auto
      then have "x # xs = (x # p) @ sub @ r" by simp
      then show ?thesis by blast
    qed
  next
    assume "\<exists>p r. x # xs = p @ sub @ r"
    then obtain p r where e: "x # xs = p @ sub @ r" by blast
    show "contains sub (x # xs)"
    proof (cases p)
      case Nil
      then have "startswith (x # xs) sub" using e by (auto simp: startswith_iff)
      then show ?thesis by simp
    next
      case (Cons y ys)
      then have "xs = ys @ sub @ r" using e by simp
      then have "contains sub xs" using Cons.IH by blast
      then show ?thesis by simp
    qed
  qed
qed

lemma contains_appendI: "contains sub s \<Longrightarrow> contains sub (s @ t)"
proof -
  assume "contains sub s"
  then obtain p r where "s = p @ sub @ r" by (auto simp: contains_iff)
  then have "s @ t = p @ sub @ (r @ t)" by simp
  then show ?thesis unfolding contains_iff by blast
qed

lemma contains_suffix: "contains sub (s @ sep @ sub)"
proof -
  have "s @ sep @ sub = (s @ sep) @ sub @ []" by simp
  then show ?thesis unfolding contains_iff by blast
qed

lemma TERM_WEIGHTS_nonneg: "(k, w) \<in> set TERM_WEIGHTS \<Longrightarrow> 0 \<le> w"
  by (auto simp: TERM_WEIGHTS_def)

lemma weights_get_float:
  assumes "0 \<le> dflt"
  shows "0 \<le> weights_get k dflt \<and> fl (weights_get k dflt) = weights_get k dflt"
proof -
  have "0 \<le> (case map_of TERM_WEIGHTS k of Some w \<Rightarrow> w | None \<Rightarrow> dflt)"
    using assms by (auto split: option.splits dest: map_of_SomeD TERM_WEIGHTS_nonneg)
  then show ?thesis unfolding weights_get_def by (simp add: fl_nonneg fl_idem)
qed

lemma add_weights_float:
  assumes "0 \<le> dflt"
  shows "0 \<le> acc \<Longrightarrow> fl acc = acc \<Longrightarrow>
           0 \<le> add_weights xs dflt query acc
           \<and> fl (add_weights xs dflt query acc) = add_weights xs dflt query acc
           \<and> acc \<le> add_weights xs dflt query acc"
proof (induction xs arbitrary: acc)
  case Nil
  then show ?case by simp
next
  case (Cons x xs)
  show ?case
  proof (cases "contains x query")
    case False
    then show ?thesis using Cons.IH [OF Cons.prems] by simp
  next
    case True
    note w = weights_get_float [OF assms, of x]
    define acc' where "acc' = fadd acc (weights_get x dflt)"
    have s: "0 \<le> acc + weights_get x dflt" using Cons.prems w by simp
    have 1: "0 \<le> acc'" unfolding acc'_def fadd_def using s by (rule fl_nonneg)
    have 2: "fl acc' = acc'" unfolding acc'_def fadd_def using s by (rule fl_idem)
    have "fl acc \<le> fl (acc + weights_get x dflt)"
      using Cons.prems(1) w by (intro fl_mono) simp_all
    then have 3: "acc \<le> acc'" by (simp add: acc'_def fadd_def Cons.prems(2))
    from Cons.IH [OF 1 2] 3 show ?thesis using True by (simp add: acc'_def)
  qed
qed

lemma add_weights_member:
  assumes "0 \<le> dflt" and "contains t query"
  shows "t \<in> set xs \<Longrightarrow> 0 \<le> acc \<Longrightarrow> fl acc = acc \<Longrightarrow>
           weights_get t dflt \<le> add_weights xs dflt query acc"
proof (induction xs arbitrary: acc)
  case Nil
  then show ?case by simp
next
  case (Cons x xs)
  note w = weights_get_float [OF assms(1)]
  show ?case
  proof (cases "contains x query")
    case False
    then have "x \<noteq> t" using assms(2) by auto
    then have "t \<in> set xs" using Cons.prems(1) by simp
    then show ?thesis using Cons.IH Cons.prems(2,3) False by simp
  next
    case True
    define acc' where "acc' = fadd acc (weights_get x dflt)"
    have s: "0 \<le> acc + weights_get x dflt" using Cons.prems w [of x] by simp
    have 1: "0 \<le> acc'" unfolding acc'_def fadd_def using s by (rule fl_nonneg)
    have 2: "fl acc' = acc'" unfolding acc'_def fadd_def using s by (rule fl_idem)
    show ?thesis
    proof (cases "x = t")
      case False
      then have "t \<in> set xs" using Cons.prems(1) by simp
      then have "weights_get t dflt \<le> add_weights xs dflt query acc'"
        using 1 2 by (rule Cons.IH)
      then show ?thesis using True by (simp add: acc'_def)
    next
      case xt: True
      have "fl (weights_get t dflt) \<le> fl (acc + weights_get t dflt)"
        using w [of t] Cons.prems(2) by (intro fl_mono) simp_all
      then have "weights_get t dflt \<le> acc'" using w [of t] by (simp add: acc'_def fadd_def xt)
      also have "acc' \<le> add_weights xs dflt query acc'"
        using add_weights_float [OF assms(1) 1 2] by simp
      finally show ?thesis using True by (simp add: acc'_def)
    qed
  qed
qed

lemma topic_boost_float:
  assumes "0 \<le> n" and "fl n = n"
  shows "0 \<le> topic_boost query n \<and> n \<le> topic_boost query n"
proof -
  have p: "(0::real) \<le> fl (3 / 2)" by (rule fl_nonneg) simp
  have "fl n \<le> fl (n + fl (3 / 2))" using assms(1) p by (intro fl_mono) simp_all
  then have "n \<le> fadd n (fl (3 / 2))" by (simp add: fadd_def assms(2))
  then show ?thesis using assms(1) by (simp add: topic_boost_def)
qed

lemma phrases_float:
  "0 \<le> add_weights COMPLEX_PHRASES 2 query (add_weights COMPLEXITY_INDICATORS 1 query 0)
   \<and> fl (add_weights COMPLEX_PHRASES 2 query (add_weights COMPLEXITY_INDICATORS 1 query 0))
       = add_weights COMPLEX_PHRASES 2 query (add_weights COMPLEXITY_INDICATORS 1 query 0)
   \<and> add_weights COMPLEXITY_INDICATORS 1 query 0
       \<le> add_weights COMPLEX_PHRASES 2 query (add_weights COMPLEXITY_INDICATORS 1 query 0)
   \<and> 0 \<le> add_weights COMPLEXITY_INDICATORS 1 query 0
   \<and> fl (add_weights COMPLEXITY_INDICATORS 1 query 0)
       = add_weights COMPLEXITY_INDICATORS 1 query 0"
proof -
  have a: "0 \<le> add_weights COMPLEXITY_INDICATORS 1 query 0
           \<and> fl (add_weights COMPLEXITY_INDICATORS 1 query 0)
               = add_weights COMPLEXITY_INDICATORS 1 query 0
           \<and> 0 \<le> add_weights COMPLEXITY_INDICATORS 1 query 0"
    by (rule add_weights_float) simp_all
  then have a1: "0 \<le> add_weights COMPLEXITY_INDICATORS 1 query 0"
    and a2: "fl (add_weights COMPLEXITY_INDICATORS 1 query 0)
               = add_weights COMPLEXITY_INDICATORS 1 query 0" by blast+
  have "(0::real) \<le> 2" by simp
  from add_weights_float [OF this a1 a2, of COMPLEX_PHRASES query] a1 a2
  show ?thesis by blast
qed

lemma indicator_count_nonneg: "0 \<le> indicator_count query"
  using phrases_float [of query] topic_boost_float [of _ query]
  by (simp add: indicator_count_def)

lemma length_score_range: "0 \<le> length_score query \<and> length_score query \<le> 1"
  by (simp add: length_score_def fdiv_def fl_nonneg)

lemma indicator_score_range: "0 \<le> indicator_score query \<and> indicator_score query \<le> 1"
  using indicator_count_nonneg [of query] by (simp add: indicator_score_def fdiv_def fl_nonneg)

lemma avg_words_per_sentence_nonneg: "0 \<le> avg_words_per_sentence query"
  by (simp add: avg_words_per_sentence_def fdiv_def fl_nonneg)

lemma sentence_score_range: "0 \<le> sentence_score query \<and> sentence_score query \<le> 1"
  using avg_words_per_sentence_nonneg [of query]
  by (simp add: sentence_score_def fdiv_def fl_nonneg)

lemma fmul_le:
  assumes "0 \<le> c" and "0 \<le> x" and "x \<le> 1"
  shows "0 \<le> fmul (fl c) x \<and> fmul (fl c) x \<le> fl c"
proof -
  have c: "0 \<le> fl c" using assms(1) by (rule fl_nonneg)
  have p: "0 \<le> fl c * x" using c assms(2) by simp
  have "fl c * x \<le> fl c * 1" using c assms(3) by (intro mult_left_mono)
  then have "fl c * x \<le> fl c" by simp
  with p have "fl (fl c * x) \<le> fl (fl c)" by (rule fl_mono)
  then show ?thesis using p by (simp add: fmul_def fl_nonneg fl_idem [OF assms(1)])
qed

lemma score_range:
  assumes "0 \<le> l \<and> l \<le> 1" and "0 \<le> i \<and> i \<le> 1" and "0 \<le> s \<and> s \<le> 1"
  shows "0 \<le> fadd (fadd (fmul (fl (1 / 5)) l) (fmul (fl (7 / 10)) i)) (fmul (fl (1 / 10)) s)
         \<and> fadd (fadd (fmul (fl (1 / 5)) l) (fmul (fl (7 / 10)) i)) (fmul (fl (1 / 10)) s)
             \<le> 9007199254740991 / 2 ^ 53"
proof -
  define a where "a = fmul (fl (1 / 5)) l"
  define b where "b = fmul (fl (7 / 10)) i"
  define c where "c = fmul (fl (1 / 10)) s"
  have a: "0 \<le> a \<and> a \<le> fl (1 / 5)" unfolding a_def using assms(1) by (intro fmul_le) simp_all
  have b: "0 \<le> b \<and> b \<le> fl (7 / 10)" unfolding b_def using assms(2) by (intro fmul_le) simp_all
  have c: "0 \<le> c \<and> c \<le> fl (1 / 10)" unfolding c_def using assms(3) by (intro fmul_le) simp_all
  have ab0: "0 \<le> a + b" using a b by simp
  have "fl (a + b) \<le> fl (fl (1 / 5) + fl (7 / 10))" using ab0 a b by (intro fl_mono) simp_all
  then have ab: "fl (a + b) \<le> 8106479329266892 / 2 ^ 53"
    by (simp only: fl_020 fl_070 fl_020_plus_070)
  have ab1: "0 \<le> fl (a + b)" using ab0 by (rule fl_nonneg)
  have abc0: "0 \<le> fl (a + b) + c" using ab1 c by simp
  have "fl (fl (a + b) + c) \<le> fl (8106479329266892 / 2 ^ 53 + fl (1 / 10))"
    using abc0 ab c by (intro fl_mono) simp_all
  then have "fl (fl (a + b) + c) \<le> 9007199254740991 / 2 ^ 53"
    by (simp only: fl_010 fl_sum_max)
  moreover have "0 \<le> fl (fl (a + b) + c)" using abc0 by (rule fl_nonneg)
  ultimately show ?thesis by (simp add: fadd_def a_def b_def c_def)
qed

lemma score_lower:
  assumes "0 \<le> l" and "1 / 2 \<le> i" and "0 \<le> s"
  shows "5 / 16
           \<le> fadd (fadd (fmul (fl (1 / 5)) l) (fmul (fl (7 / 10)) i)) (fmul (fl (1 / 10)) s)"
proof -
  define a where "a = fmul (fl (1 / 5)) l"
  define b where "b = fmul (fl (7 / 10)) i"
  define c where "c = fmul (fl (1 / 10)) s"
  have c20: "(0::real) \<le> fl (1 / 5)" by (rule fl_nonneg) simp
  have c10: "(0::real) \<le> fl (1 / 10)" by (rule fl_nonneg) simp
  have a: "0 \<le> a" unfolding a_def fmul_def using c20 assms(1) by (intro fl_nonneg) simp
  have c: "0 \<le> c" unfolding c_def fmul_def using c10 assms(3) by (intro fl_nonneg) simp
  have "fl (5 / 8) \<le> fl (7 / 10)" by (rule fl_mono) simp_all
  then have c70: "5 / 8 \<le> fl (7 / 10)" by (simp only: fl_5_8)
  have "5 / 8 * (1 / 2) \<le> fl (7 / 10) * i"
    using c70 assms(2) by (intro mult_mono) simp_all
  then have "5 / 16 \<le> fl (7 / 10) * i" by simp
  then have "fl (5 / 16) \<le> fl (fl (7 / 10) * i)" by (intro fl_mono) simp_all
  then have b: "5 / 16 \<le> b" by (simp only: fl_5_16 b_def fmul_def)
  have "5 / 16 \<le> a + b" using a b by simp
  then have "fl (5 / 16) \<le> fl (a + b)" by (intro fl_mono) simp_all
  then have ab: "5 / 16 \<le> fl (a + b)" by (simp only: fl_5_16)
  have "5 / 16 \<le> fl (a + b) + c" using ab c by simp
  then have "fl (5 / 16) \<le> fl (fl (a + b) + c)" by (intro fl_mono) simp_all
  then have "5 / 16 \<le> fl (fl (a + b) + c)" by (simp only: fl_5_16)
  then show ?thesis by (simp add: fadd_def a_def b_def c_def)
qed

lemma fl_error_small:
  assumes "0 \<le> x" and "x \<le> 2"
  shows "\<bar>fl x - x\<bar> \<le> 1 / 2 ^ 52"
proof -
  have "\<bar>fl x - x\<bar> \<le> x / 2 ^ 53" using assms(1) by (rule fl_error)
  also have "\<dots> \<le> 2 / 2 ^ 53" using assms(2) by (intro divide_right_mono) simp_all
  finally show ?thesis by simp
qed

lemma fmul_error:
  assumes "0 \<le> c" and "c \<le> 1" and "0 \<le> x" and "x \<le> 1"
  shows "\<bar>fmul (fl c) x - c * x\<bar> \<le> 2 / 2 ^ 52"
proof -
  have c0: "0 \<le> fl c" using assms(1) by (rule fl_nonneg)
  have "fl c \<le> fl 1" using assms(1,2) by (rule fl_mono)
  then have c1: "fl c \<le> 1" by simp
  have e1: "\<bar>fl c - c\<bar> \<le> 1 / 2 ^ 52" using assms(1,2) by (intro fl_error_small) simp_all
  have "\<bar>fl c * x - c * x\<bar> = \<bar>fl c - c\<bar> * x"
    using assms(3) by (simp add: left_diff_distrib [symmetric] abs_mult)
  also have "\<dots> \<le> 1 / 2 ^ 52 * 1"
    using e1 assms(3,4) by (intro mult_mono) simp_all
  finally have e2: "\<bar>fl c * x - c * x\<bar> \<le> 1 / 2 ^ 52" by simp
  have p: "0 \<le> fl c * x" using c0 assms(3) by simp
  have "fl c * x \<le> 1 * 1" using c0 c1 assms(3,4) by (intro mult_mono) simp_all
  then have "\<bar>fl (fl c * x) - fl c * x\<bar> \<le> 1 / 2 ^ 52" using p by (intro fl_error_small) simp_all
  with e2 show ?thesis unfolding fmul_def by linarith
qed

lemma score_error:
  assumes "0 \<le> l \<and> l \<le> 1" and "0 \<le> i \<and> i \<le> 1" and "0 \<le> s \<and> s \<le> 1"
  shows "\<bar>fadd (fadd (fmul (fl (1 / 5)) l) (fmul (fl (7 / 10)) i)) (fmul (fl (1 / 10)) s)
           - (1 / 5 * l + 7 / 10 * i + 1 / 10 * s)\<bar> \<le> 1 / 2 ^ 49"
proof -
  define a where "a = fmul (fl (1 / 5)) l"
  define b where "b = fmul (fl (7 / 10)) i"
  define c where "c = fmul (fl (1 / 10)) s"
  have a: "0 \<le> a \<and> a \<le> fl (1 / 5)" unfolding a_def using assms(1) by (intro fmul_le) simp_all
  have b: "0 \<le> b \<and> b \<le> fl (7 / 10)" unfolding b_def using assms(2) by (intro fmul_le) simp_all
  have c: "0 \<le> c \<and> c \<le> fl (1 / 10)" unfolding c_def using assms(3) by (intro fmul_le) simp_all
  have "fl (1 / 5) \<le> fl (1 / 4)" by (rule fl_mono) simp_all
  then have c20: "fl (1 / 5) \<le> 1 / 4" by (simp only: fl_1_4)
  have "fl (7 / 10) \<le> fl 1" by (rule fl_mono) simp_all
  then have c70: "fl (7 / 10) \<le> 1" by simp
  have "fl (1 / 10) \<le> fl (1 / 4)" by (rule fl_mono) simp_all
  then have c10: "fl (1 / 10) \<le> 1 / 4" by (simp only: fl_1_4)
  have ea: "\<bar>a - 1 / 5 * l\<bar> \<le> 2 / 2 ^ 52"
    unfolding a_def using assms(1) by (intro fmul_error) simp_all
  have eb: "\<bar>b - 7 / 10 * i\<bar> \<le> 2 / 2 ^ 52"
    unfolding b_def using assms(2) by (intro fmul_error) simp_all
  have ec: "\<bar>c - 1 / 10 * s\<bar> \<le> 2 / 2 ^ 52"
    unfolding c_def using assms(3) by (intro fmul_error) simp_all
  have eab: "\<bar>fl (a + b) - (a + b)\<bar> \<le> 1 / 2 ^ 52"
    using a b c20 c70 by (intro fl_error_small) linarith+
  have "fl (a + b) \<le> fl (5 / 4)" using a b c20 c70 by (intro fl_mono) linarith+
  moreover have "fl (5 / 4) = 5 / 4" using fl_representable [of "5 * 2 ^ 50" "- 52"] by simp
  ultimately have ab: "fl (a + b) \<le> 5 / 4" by simp
  have ab0: "0 \<le> fl (a + b)" using a b by (intro fl_nonneg) simp
  have eabc: "\<bar>fl (fl (a + b) + c) - (fl (a + b) + c)\<bar> \<le> 1 / 2 ^ 52"
    using ab ab0 c c10 by (intro fl_error_small) linarith+
  have "\<bar>fl (fl (a + b) + c) - (1 / 5 * l + 7 / 10 * i + 1 / 10 * s)\<bar> \<le> 8 / 2 ^ 52"
    using ea eb ec eab eabc by linarith
  then show ?thesis by (simp add: fadd_def a_def b_def c_def)
qed

lemma score_unfold:
  "snd (assess_complexity q)
     = fadd (fadd (fmul (fl (1 / 5)) (length_score (lower q)))
                  (fmul (fl (7 / 10)) (indicator_score (lower q))))
            (fmul (fl (1 / 10)) (sentence_score (lower q)))"
  by (simp add: assess_complexity_def Let_def)

lemma is_complex_unfold:
  "fst (assess_complexity q) = (fl (3 / 10) < snd (assess_complexity q))"
  by (simp add: assess_complexity_def Let_def)

lemma is_complex_exact:
  "(fl (3 / 10) < snd (assess_complexity q)) = (3 / 10 < snd (assess_complexity q))"
proof -
  let ?l = "length_score (lower q)" and ?i = "indicator_score (lower q)"
    and ?s = "sentence_score (lower q)"
  define z where "z = fadd (fmul (fl (1 / 5)) ?l) (fmul (fl (7 / 10)) ?i) + fmul (fl (1 / 10)) ?s"
  have a: "0 \<le> fmul (fl (1 / 5)) ?l"
    using length_score_range [of "lower q"] by (intro fmul_le [THEN conjunct1]) simp_all
  have b: "0 \<le> fmul (fl (7 / 10)) ?i"
    using indicator_score_range [of "lower q"] by (intro fmul_le [THEN conjunct1]) simp_all
  have c: "0 \<le> fmul (fl (1 / 10)) ?s"
    using sentence_score_range [of "lower q"] by (intro fmul_le [THEN conjunct1]) simp_all
  have "0 \<le> fadd (fmul (fl (1 / 5)) ?l) (fmul (fl (7 / 10)) ?i)"
    unfolding fadd_def using a b by (intro fl_nonneg) simp
  then have z: "0 \<le> z" using c by (simp add: z_def)
  have s: "snd (assess_complexity q) = fl z"
    by (simp add: score_unfold z_def fadd_def)
  show ?thesis unfolding s using z by (rule threshold_exact)
qed

text \<open>
  C1: for every query the score is \<open>0.20 * lengthScore + 0.70 * indicatorScore + 0.10 *
  sentenceScore\<close> computed in floats, which differs from the sum over the reals by at
  most \<open>2 ^ - 49\<close>; each component is a minimum with 1 and lies between 0 and 1, and the
  score lies between 0 and 1; the query is classified complex exactly when the score is
  greater than the float \<open>0.30\<close>, which for a score is the same as being greater than
  the real number 0.30. The result is a function of the query string alone (the tables
  are constants), so equal inputs give equal outputs.
\<close>

theorem assess_complexity_score:
  "snd (assess_complexity q)
     = fadd (fadd (fmul (fl 0.20) (length_score (lower q)))
                  (fmul (fl 0.70) (indicator_score (lower q))))
            (fmul (fl 0.10) (sentence_score (lower q)))
   \<and> \<bar>snd (assess_complexity q)
        - (0.20 * length_score (lower q) + 0.70 * indicator_score (lower q)
             + 0.10 * sentence_score (lower q))\<bar> \<le> 1 / 2 ^ 49
   \<and> length_score (lower q) = min (fdiv (real (length (lower q))) 200) 1
   \<and> indicator_score (lower q) = min (fdiv (indicator_count (lower q)) 6) 1
   \<and> sentence_score (lower q) = min (fdiv (avg_words_per_sentence (lower q)) 20) 1
   \<and> 0 \<le> length_score (lower q) \<and> length_score (lower q) \<le> 1
   \<and> 0 \<le> indicator_score (lower q) \<and> indicator_score (lower q) \<le> 1
   \<and> 0 \<le> sentence_score (lower q) \<and> sentence_score (lower q) \<le> 1
   \<and> 0 \<le> snd (assess_complexity q) \<and> snd (assess_complexity q) \<le> 1
   \<and> fst (assess_complexity q) = (snd (assess_complexity q) > fl 0.30)
   \<and> fst (assess_complexity q) = (snd (assess_complexity q) > 0.30)"
proof -
  let ?l = "length_score (lower q)" and ?i = "indicator_score (lower q)"
    and ?s = "sentence_score (lower q)"
  have l: "0 \<le> ?l \<and> ?l \<le> 1" by (rule length_score_range)
  have i: "0 \<le> ?i \<and> ?i \<le> 1" by (rule indicator_score_range)
  have t: "0 \<le> ?s \<and> ?s \<le> 1" by (rule sentence_score_range)
  note s = score_unfold [of q]
  from score_range [OF l i t]
  have r: "0 \<le> snd (assess_complexity q) \<and> snd (assess_complexity q) \<le> 1"
    unfolding s by simp
  from score_error [OF l i t]
  have e: "\<bar>snd (assess_complexity q) - (1 / 5 * ?l + 7 / 10 * ?i + 1 / 10 * ?s)\<bar> \<le> 1 / 2 ^ 49"
    unfolding s .
  note f1 = is_complex_unfold [of q]
  have f2: "fst (assess_complexity q) = (3 / 10 < snd (assess_complexity q))"
    unfolding f1 by (rule is_complex_exact)
  have d1: "?l = min (fdiv (real (length (lower q))) 200) 1" by (simp add: length_score_def)
  have d2: "?i = min (fdiv (indicator_count (lower q)) 6) 1" by (simp add: indicator_score_def)
  have d3: "?s = min (fdiv (avg_words_per_sentence (lower q)) 20) 1"
    by (simp add: sentence_score_def)
  have c1: "snd (assess_complexity q)
     = fadd (fadd (fmul (fl 0.20) ?l) (fmul (fl 0.70) ?i)) (fmul (fl 0.10) ?s)"
    using s by simp
  have c2: "\<bar>snd (assess_complexity q) - (0.20 * ?l + 0.70 * ?i + 0.10 * ?s)\<bar> \<le> 1 / 2 ^ 49"
    using e by simp
  have c3: "fst (assess_complexity q) = (snd (assess_complexity q) > fl 0.30)"
    using f1 by simp
  have c4: "fst (assess_complexity q) = (snd (assess_complexity q) > 0.30)"
    using f2 by simp
  from c1 c2 d1 d2 d3 l i t r c3 c4 show ?thesis by blast
qed

subsection \<open>Adding a high-weight term\<close>

lemma lower_append: "lower (a @ b) = lower a @ lower b"
  by (simp add: lower_def)

lemmas lower_defs = lower_def lower_char_def ascii_uppercase_def ascii_lowercase_def
  latin1_uppercase_def latin1_lowercase_def

lemma high_weight_cases:
  assumes "t \<in> set high_weight_terms"
  shows "t \<in> {''philosophical'', ''ethical'', ''epistemological'', ''ontology'',
               ''metaphysical'', ''consciousness'', ''free will'', ''moral dimension'',
               ''ethical implication'', ''determinism''}"
proof -
  from assms have "map_of TERM_WEIGHTS t = Some 3" by (auto simp: high_weight_terms_def)
  then have "(t, 3) \<in> set TERM_WEIGHTS" by (rule map_of_SomeD)
  then show ?thesis by (simp add: TERM_WEIGHTS_def)
qed

lemma uppercase_codes:
  "c \<in> set (ascii_uppercase @ latin1_uppercase) \<Longrightarrow>
     (of_char c :: nat) \<in> {65..90} \<union> {192..222}"
  by (auto simp: ascii_uppercase_def latin1_uppercase_def)

lemma lower_char_id:
  assumes "(of_char c :: nat) \<notin> {65..90} \<union> {192..222}"
  shows "lower_char c = c"
proof -
  have notin: "c \<notin> set (ascii_uppercase @ latin1_uppercase)"
    using assms uppercase_codes by blast
  have len: "length (ascii_uppercase @ latin1_uppercase)
               = length (ascii_lowercase @ latin1_lowercase)"
    by (simp add: ascii_uppercase_def latin1_uppercase_def ascii_lowercase_def
          latin1_lowercase_def)
  have "map_of (zip (ascii_uppercase @ latin1_uppercase)
                    (ascii_lowercase @ latin1_lowercase)) c = None"
    using notin map_of_zip_is_None [OF len] by blast
  then show ?thesis by (simp add: lower_char_def)
qed

lemma lower_id:
  assumes "\<And>c. c \<in> set s \<Longrightarrow> (of_char c :: nat) \<notin> {65..90} \<union> {192..222}"
  shows "lower s = s"
  unfolding lower_def
proof (rule map_idI)
  fix c
  assume "c \<in> set s"
  then show "lower_char c = c" by (intro lower_char_id assms)
qed

lemma high_weight_lower: "t \<in> set high_weight_terms \<Longrightarrow> lower t = t"
  by (drule high_weight_cases) (auto intro!: lower_id)

lemma high_weight_listed:
  "t \<in> set high_weight_terms \<Longrightarrow>
     t \<in> set COMPLEXITY_INDICATORS \<or> t \<in> set COMPLEX_PHRASES"
  by (auto simp: high_weight_terms_def)

lemma high_weight_get: "t \<in> set high_weight_terms \<Longrightarrow> weights_get t dflt = 3"
  by (auto simp: high_weight_terms_def weights_get_def)

lemma indicator_count_ge_3:
  assumes t: "t \<in> set high_weight_terms" and c: "contains t q"
  shows "3 \<le> indicator_count q"
proof -
  let ?A = "add_weights COMPLEXITY_INDICATORS 1 q 0"
  let ?B = "add_weights COMPLEX_PHRASES 2 q ?A"
  note p = phrases_float [of q]
  have "3 \<le> ?B"
  proof (cases "t \<in> set COMPLEXITY_INDICATORS")
    case True
    have "weights_get t 1 \<le> ?A"
      using _ c True by (rule add_weights_member) simp_all
    then show ?thesis using high_weight_get [OF t] p by simp
  next
    case False
    then have P: "t \<in> set COMPLEX_PHRASES" using high_weight_listed [OF t] by simp
    have "weights_get t 2 \<le> ?B"
      using _ c P by (rule add_weights_member) (use p in simp_all)
    then show ?thesis using high_weight_get [OF t] by simp
  qed
  also have "?B \<le> topic_boost q ?B" using p by (intro topic_boost_float [THEN conjunct2]) simp_all
  finally show ?thesis by (simp add: indicator_count_def)
qed

text \<open>
  C7: for every query whose score is at most 0.30 (classified simple), appending a
  recognized term of weight 3.0 does not decrease the score. The term may be appended
  directly (\<open>sep\<close> empty) or after any separator \<open>sep\<close>, such as a space.
\<close>

theorem high_weight_term_monotone:
  assumes simple: "snd (assess_complexity q) \<le> 0.30"
    and t: "t \<in> set high_weight_terms"
  shows "snd (assess_complexity q) \<le> snd (assess_complexity (q @ sep @ t))"
proof -
  let ?q' = "lower (q @ sep @ t)"
  have q': "?q' = lower q @ lower sep @ t"
    by (simp add: lower_append high_weight_lower [OF t])
  have present: "contains t ?q'"
    unfolding q' by (rule contains_suffix)
  have "3 \<le> indicator_count ?q'" using t present by (rule indicator_count_ge_3)
  then have "fl (1 / 2) \<le> fl (indicator_count ?q' / 6)" by (intro fl_mono) simp_all
  then have i: "1 / 2 \<le> indicator_score ?q'" by (simp add: indicator_score_def fdiv_def)
  have l: "0 \<le> length_score ?q'" using length_score_range [of ?q'] by simp
  have s: "0 \<le> sentence_score ?q'" using sentence_score_range [of ?q'] by simp
  have "5 / 16 \<le> snd (assess_complexity (q @ sep @ t))"
    unfolding score_unfold using l i s by (rule score_lower)
  with simple show ?thesis by simp
qed

lemmas count_defs = indicator_count_def COMPLEXITY_INDICATORS_def COMPLEX_PHRASES_def
  topic_boost_def weights_get_def TERM_WEIGHTS_def

lemmas sentence_defs = sentence_score_def avg_words_per_sentence_def sentences_def
  strip_def isspace_def split_ws.simps

lemma score_what_is_a_pdf: "snd (assess_complexity ''What is a PDF?'') \<le> 5 / 32"
proof -
  have l: "lower ''What is a PDF?'' = ''what is a pdf?''" by (simp add: lower_defs)
  have i: "indicator_count ''what is a pdf?'' = 0" by (simp add: count_defs)
  have "fl (14 / 200) \<le> fl (1 / 8)" by (rule fl_mono) simp_all
  then have L: "length_score ''what is a pdf?'' \<le> 1 / 8"
    by (simp add: length_score_def fdiv_def fl_1_8 min_def)
  have "fl (1 / 5) \<le> fl (1 / 4)" by (rule fl_mono) simp_all
  then have c20: "fl (1 / 5) \<le> 1 / 4" by (simp only: fl_1_4)
  have c20': "(0::real) \<le> fl (1 / 5)" by (rule fl_nonneg) simp
  have L0: "0 \<le> length_score ''what is a pdf?''" using length_score_range by simp
  have "fl (1 / 5) * length_score ''what is a pdf?'' \<le> 1 / 4 * (1 / 8)"
    using c20 c20' L L0 by (intro mult_mono) simp_all
  then have "fl (fl (1 / 5) * length_score ''what is a pdf?'') \<le> fl (1 / 32)"
    using c20' L0 by (intro fl_mono) simp_all
  then have a: "fmul (fl (1 / 5)) (length_score ''what is a pdf?'') \<le> 1 / 32"
    by (simp only: fl_1_32 fmul_def)
  have a0: "0 \<le> fmul (fl (1 / 5)) (length_score ''what is a pdf?'')"
    unfolding fmul_def using c20' L0 by (intro fl_nonneg) simp
  have b: "fmul (fl (7 / 10)) (indicator_score ''what is a pdf?'') = 0"
    by (simp add: indicator_score_def i fdiv_def fmul_def)
  have "fl (1 / 10) \<le> fl (1 / 8)" by (rule fl_mono) simp_all
  then have c10: "fl (1 / 10) \<le> 1 / 8" by (simp only: fl_1_8)
  have c: "0 \<le> fmul (fl (1 / 10)) (sentence_score ''what is a pdf?'')
           \<and> fmul (fl (1 / 10)) (sentence_score ''what is a pdf?'') \<le> fl (1 / 10)"
    using sentence_score_range [of "''what is a pdf?''"] by (intro fmul_le) simp_all
  have "fl (fmul (fl (1 / 5)) (length_score ''what is a pdf?'') + 0) \<le> fl (1 / 32)"
    using a a0 by (intro fl_mono) simp_all
  then have ab: "fl (fmul (fl (1 / 5)) (length_score ''what is a pdf?'') + 0) \<le> 1 / 32"
    by (simp only: fl_1_32)
  have ab0: "0 \<le> fl (fmul (fl (1 / 5)) (length_score ''what is a pdf?'') + 0)"
    using a0 by (intro fl_nonneg) simp
  have "fl (fl (fmul (fl (1 / 5)) (length_score ''what is a pdf?'') + 0)
             + fmul (fl (1 / 10)) (sentence_score ''what is a pdf?'')) \<le> fl (5 / 32)"
    using ab ab0 c c10 by (intro fl_mono) linarith+
  then show ?thesis
    by (simp add: score_unfold l b fadd_def fl_5_32)
qed

text \<open>
  The query \<open>What is a PDF?\<close> scores at most 5/32 and is classified simple; the term
  \<open>ethical\<close> has weight 3.0.
\<close>

theorem high_weight_term_monotone_witness:
  "snd (assess_complexity ''What is a PDF?'') \<le> 0.30
   \<and> ''ethical'' \<in> set high_weight_terms
   \<and> snd (assess_complexity ''What is a PDF?'')
       \<le> snd (assess_complexity (''What is a PDF?'' @ '' '' @ ''ethical''))"
proof -
  have h1: "snd (assess_complexity ''What is a PDF?'') \<le> 0.30"
    using score_what_is_a_pdf by simp
  have h2: "''ethical'' \<in> set high_weight_terms"
    by (simp add: high_weight_terms_def COMPLEXITY_INDICATORS_def TERM_WEIGHTS_def)
  from h1 h2 high_weight_term_monotone [OF h1 h2, of "'' ''"] show ?thesis by blast
qed

text \<open>
  C4, as stated: the result of an assessment would carry the ordered list of matched
  indicators. The queries \<open>infer\<close> and \<open>prove\<close> match different indicators and have
  the same result, so the matched indicators cannot be read off the result.
\<close>

theorem assess_complexity_hides_matches:
  "assess_complexity ''infer'' = assess_complexity ''prove''
   \<and> matched_indicators ''infer'' \<noteq> matched_indicators ''prove''"
proof -
  have l: "lower ''infer'' = ''infer''" "lower ''prove'' = ''prove''"
    by (simp_all add: lower_defs)
  have i: "indicator_count ''infer'' = 1" "indicator_count ''prove'' = 1"
    by (simp_all add: count_defs fadd_def)
  have s: "sentence_score ''infer'' = sentence_score ''prove''"
    by (simp add: sentence_defs)
  have a: "assess_complexity ''infer'' = assess_complexity ''prove''"
    by (simp add: assess_complexity_def l i s length_score_def indicator_score_def)
  have m1: "matched_indicators ''infer'' = [(''infer'', 1)]"
    by (simp add: matched_indicators_def l COMPLEXITY_INDICATORS_def COMPLEX_PHRASES_def
          weights_get_def TERM_WEIGHTS_def)
  have m2: "matched_indicators ''prove'' = [(''prove'', 1)]"
    by (simp add: matched_indicators_def l COMPLEXITY_INDICATORS_def COMPLEX_PHRASES_def
          weights_get_def TERM_WEIGHTS_def)
  show ?thesis using a by (simp add: m1 m2)
qed

lemma add_weights_matched:
  "add_weights xs dflt query acc
     = foldl fadd acc (map snd (map (\<lambda>i. (i, weights_get i dflt))
                                    (filter (\<lambda>i. contains i query) xs)))"
  by (induction xs arbitrary: acc) simp_all

text \<open>
  C4, amended: for every query the assessment returns exactly the pair of the boolean
  \<open>is_complex\<close> and the score; the matched indicators are not part of the result. They
  enter it only through the indicator count, which is the sum of their weights, added in
  table order, with the topic boost applied.
\<close>

theorem assess_complexity_returns_pair:
  "assess_complexity q = (0.30 < snd (assess_complexity q), snd (assess_complexity q))
   \<and> snd (assess_complexity q)
       = fadd (fadd (fmul (fl 0.20) (length_score (lower q)))
                    (fmul (fl 0.70) (indicator_score (lower q))))
              (fmul (fl 0.10) (sentence_score (lower q)))
   \<and> indicator_count (lower q)
       = topic_boost (lower q) (foldl fadd 0 (map snd (matched_indicators q)))"
proof -
  have c: "indicator_count (lower q)
          = topic_boost (lower q) (foldl fadd 0 (map snd (matched_indicators q)))"
    by (simp add: indicator_count_def matched_indicators_def Let_def add_weights_matched
          del: map_map)
  have "fst (assess_complexity q) = (3 / 10 < snd (assess_complexity q))"
    unfolding is_complex_unfold by (rule is_complex_exact)
  then have a: "assess_complexity q = (0.30 < snd (assess_complexity q), snd (assess_complexity q))"
    by (simp add: prod_eq_iff)
  have b: "snd (assess_complexity q)
       = fadd (fadd (fmul (fl 0.20) (length_score (lower q)))
                    (fmul (fl 0.70) (indicator_score (lower q))))
              (fmul (fl 0.10) (sentence_score (lower q)))"
    using score_unfold [of q] by simp
  from a b c show ?thesis by blast
qed

subsection \<open>A long query without indicators\<close>

lemma contains_set: "contains sub s \<Longrightarrow> set sub \<subseteq> set s"
  by (auto simp: contains_iff)

lemma add_weights_none:
  "(\<And>i. i \<in> set xs \<Longrightarrow> \<not> contains i query) \<Longrightarrow> add_weights xs dflt query acc = acc"
  by (induction xs arbitrary: acc) simp_all

lemma long_plain_query_chars: "set long_plain_query = {CHR ''b'', CHR '' ''}"
  by (auto simp: long_plain_query_def)

lemma long_plain_query_count: "indicator_count long_plain_query = 0"
proof -
  have n: "\<not> contains i long_plain_query"
    if "i \<in> set (COMPLEXITY_INDICATORS @ COMPLEX_PHRASES @ [''ai'', ''artificial intelligence''])"
    for i
  proof
    assume "contains i long_plain_query"
    then have "set i \<subseteq> {CHR ''b'', CHR '' ''}"
      using contains_set long_plain_query_chars by blast
    with that show False
      by (auto simp: COMPLEXITY_INDICATORS_def COMPLEX_PHRASES_def)
  qed
  have a: "add_weights COMPLEXITY_INDICATORS d long_plain_query 0 = 0" for d
    by (rule add_weights_none) (simp add: n)
  have b: "add_weights COMPLEX_PHRASES d long_plain_query 0 = 0" for d
    by (rule add_weights_none) (simp add: n)
  have c: "\<not> list_ex (\<lambda>t. contains t long_plain_query) [''ai'', ''artificial intelligence'']"
    by (simp add: n)
  have t: "topic_boost long_plain_query 0 = 0"
    unfolding topic_boost_def by (simp only: c if_False)
  show ?thesis by (simp only: indicator_count_def a b t)
qed

text \<open>
  For a single sentence of at least 200 characters and at least 20 words without any
  indicator the components are 1, 0 and 1. Over the reals the score would be 0.30 and not
  greater than the threshold; in floats \<open>0.20 + 0.10\<close> is 0.30000000000000004, which
  is greater than the float \<open>0.30\<close>, and the query is classified complex.
\<close>

lemma assess_complexity_long_plain:
  "length long_plain_query = 219
   \<and> assess_complexity long_plain_query = (True, 5404319552844596 / 2 ^ 54)
   \<and> \<not> (0.20 * 1 + 0.70 * 0 + 0.10 * 1 > (0.30::real))"
proof -
  have l: "lower long_plain_query = long_plain_query"
    by (rule lower_id) (auto simp: long_plain_query_def)
  note i = long_plain_query_count
  have n: "length long_plain_query = 219" by (simp add: long_plain_query_def)
  have "fl 1 \<le> fl (219 / 200)" by (rule fl_mono) simp_all
  then have L: "length_score long_plain_query = 1"
    by (simp add: length_score_def fdiv_def n)
  have a: "avg_words_per_sentence long_plain_query = 20"
    by (simp add: avg_words_per_sentence_def sentences_def strip_def isspace_def
          split_ws.simps long_plain_query_def fdiv_def)
  have S: "sentence_score long_plain_query = 1"
    by (simp add: sentence_score_def a fdiv_def)
  have I: "indicator_score long_plain_query = 0"
    by (simp add: indicator_score_def i fdiv_def)
  have c20: "fl (fl (1 / 5)) = fl (1 / 5)" by (rule fl_idem) simp
  have c10: "fl (fl (1 / 10)) = fl (1 / 10)" by (rule fl_idem) simp
  have "snd (assess_complexity long_plain_query) = fl (fl (1 / 5) + fl (1 / 10))"
    unfolding score_unfold l L I S fadd_def fmul_def by (simp add: c20 c10)
  also have "\<dots> = 5404319552844596 / 2 ^ 54"
    by (simp only: fl_020 fl_010 fl_020_plus_010)
  finally have s: "snd (assess_complexity long_plain_query) = 5404319552844596 / 2 ^ 54" .
  have f: "fst (assess_complexity long_plain_query)"
    unfolding is_complex_unfold s by (simp add: fl_030)
  from s f have "assess_complexity long_plain_query = (True, 5404319552844596 / 2 ^ 54)"
    by (simp add: prod_eq_iff)
  then show ?thesis using n by simp
qed

section \<open>Properties of truncate_text\<close>

lemma slice_bound_nonneg: "0 \<le> i \<Longrightarrow> i \<le> int n \<Longrightarrow> slice_bound i n = nat i"
  by (simp add: slice_bound_def)

lemma slice_bound_neg: "i < 0 \<Longrightarrow> - i \<le> int n \<Longrightarrow> slice_bound i n = nat (int n + i)"
  by (simp add: slice_bound_def add.commute)

text \<open>
  A text of length at most \<open>max_length\<close> is returned unchanged, for every
  \<open>max_length\<close>; for \<open>max_length\<close> of at least 3 (the default is 8000) and a strictly
  longer text, the returned string has length exactly \<open>max_length + 3\<close>.
\<close>

lemma truncate_text_length:
  "(int (length text) \<le> max_length \<longrightarrow> truncate_text text max_length = text)
   \<and> (3 \<le> max_length \<and> max_length < int (length text) \<longrightarrow>
        int (length (truncate_text text max_length)) = max_length + 3
        \<and> max_length < int (length (truncate_text text max_length)))"
proof (intro conjI impI)
  assume "int (length text) \<le> max_length"
  then show "truncate_text text max_length = text" by (simp add: truncate_text_def)
next
  assume a: "3 \<le> max_length \<and> max_length < int (length text)"
  define n where "n = length text"
  define k where "k = max_length div 3"
  have k: "1 \<le> k" "3 * k \<le> max_length" using a by (auto simp: k_def)
  have n: "max_length < int n" using a by (simp add: n_def)
  have b1: "slice_bound k n = nat k"
    using k n by (intro slice_bound_nonneg) linarith+
  have b2: "slice_bound (- k) n = nat (int n - k)"
    using k n slice_bound_neg [of "- k" n] by simp
  define lo where "lo = int n - (max_length - k - k) - k"
  have lo: "0 \<le> lo" "lo \<le> int n - k" "int n - k - lo = max_length - 2 * k"
    using k n by (simp_all add: lo_def)
  have b3: "slice_bound lo n = nat lo"
    using lo k by (intro slice_bound_nonneg) linarith+
  have l1: "length (slice_to text k) = nat k"
    using k n by (simp add: slice_to_def b1 n_def [symmetric])
  have l2: "int (length (slice_from text (- k))) = k"
    using k n by (simp add: slice_from_def b2 n_def [symmetric])
  have d: "int (nat (int n - k) - nat lo) = int n - k - lo"
    using lo by linarith
  have "length (slice text lo (- k)) = nat (int n - k) - nat lo"
    using lo k n by (simp add: slice_def Let_def b2 b3 n_def [symmetric])
  then have l3: "int (length (slice text lo (- k))) = max_length - 2 * k"
    using d lo(3) by simp
  have t: "truncate_text text max_length
             = slice_to text k @ ''...''
                 @ slice text lo (- k)
                 @ slice_from text (- k)"
    using n
    unfolding truncate_text_def Let_def k_def [symmetric] n_def [symmetric] lo_def [symmetric]
    by simp
  have "int (length (truncate_text text max_length)) = max_length + 3"
    unfolding t using l1 l2 l3 k by simp
  then show "int (length (truncate_text text max_length)) = max_length + 3"
    and "max_length < int (length (truncate_text text max_length))" by simp_all
qed

text \<open>
  Both cases at the text \<open>abcdefgh\<close>: unchanged for \<open>max_length = 8\<close>, and of length 8
  for \<open>max_length = 5\<close>.
\<close>

lemma truncate_text_length_example:
  "(int (length ''abcdefgh'') \<le> 8 \<and> truncate_text ''abcdefgh'' 8 = ''abcdefgh'')
   \<and> (3 \<le> (5::int) \<and> 5 < int (length ''abcdefgh'')
        \<and> truncate_text ''abcdefgh'' 5 = ''a...efgh''
        \<and> int (length (truncate_text ''abcdefgh'' 5)) = 5 + 3)"
proof -
  have h1: "int (length ''abcdefgh'') \<le> 8" by simp
  have h2: "3 \<le> (5::int) \<and> 5 < int (length ''abcdefgh'')" by simp
  have e: "truncate_text ''abcdefgh'' 5 = ''a...efgh''"
    by (simp add: truncate_text_def slice_to_def slice_from_def slice_def slice_bound_def)
  from truncate_text_length [of "''abcdefgh''" 8] h1
  have r1: "truncate_text ''abcdefgh'' 8 = ''abcdefgh''" by blast
  from truncate_text_length [of "''abcdefgh''" 5] h2
  have r2: "int (length (truncate_text ''abcdefgh'' 5)) = 5 + 3" by blast
  from h1 h2 e r1 r2 show ?thesis by blast
qed

text \<open>
  For every \<open>max_length\<close>, also below 3, the result for a strictly longer text is
  longer than \<open>max_length\<close>: it holds the three dots.
\<close>

lemma truncate_text_exceeds:
  assumes "max_length < int (length text)"
  shows "max_length < int (length (truncate_text text max_length))"
proof (cases "3 \<le> max_length")
  case True
  then show ?thesis using assms truncate_text_length by blast
next
  case False
  have "3 \<le> length (truncate_text text max_length)"
    using assms by (simp add: truncate_text_def Let_def)
  with False show ?thesis by linarith
qed

text \<open>
  C9: the length of the result for a text longer than \<open>max_length\<close> would be exactly
  \<open>max_length + 3\<close>. With \<open>max_length = 2\<close> both thirds are 0 and the conclusion
  \<open>text[-0:]\<close> is the whole text, not the empty end of it: for the text \<open>abc\<close> the result
  is \<open>...abc\<close>, of length 6 and not 5, and longer than the text that was to be
  truncated.
\<close>

theorem truncate_text_short_max_length:
  "\<not> int (length ''abc'') \<le> 2
   \<and> slice_from ''abc'' (- (2 div 3)) = ''abc''
   \<and> truncate_text ''abc'' 2 = ''...abc''
   \<and> int (length (truncate_text ''abc'' 2)) \<noteq> 2 + 3
   \<and> length ''abc'' < length (truncate_text ''abc'' 2)"
proof -
  have e: "truncate_text ''abc'' 2 = ''...abc''"
    by (simp add: truncate_text_def slice_to_def slice_from_def slice_def slice_bound_def)
  show ?thesis by (simp add: e slice_from_def slice_bound_def)
qed

section \<open>Properties of chain rebinding\<close>

lemmas comp_defs = bind_def ret_def raise_def new_def with_config_def pipe_def
  runnable_like_def chat_prompt_def

lemma getattr_append_old:
  "r < length h \<Longrightarrow> getattr (h @ os) (PRef r) name = getattr h (PRef r) name"
  by (simp add: getattr_def nth_append)

lemma getattr_append_new:
  "i < length os \<Longrightarrow> getattr (h @ os) (PRef (length h + i)) name = map_of (os ! i) name"
  by (simp add: getattr_def nth_append)

lemma history_chain_raises_or_returns:
  assumes "history_chain (PRef p) retriever llm h = (res, h')"
  shows "take (length h) h' = h \<and>
         (case res of
            Inl ex \<Rightarrow> True
          | Inr updated \<Rightarrow>
              updated = PRef (length h + 8) \<and> length h' = length h + 9 \<and>
              (\<exists>r. retriever = PRef r) \<and>
              retrieval_stage h' updated = Some retriever \<and>
              bound_model h' updated = Some llm)"
proof (cases "(\<exists>r. retriever = PRef r) \<and> runnable_like llm")
  case False
  then show ?thesis
    using assms
    by (auto simp: history_chain_def comp_defs split: pyval.splits)
next
  case True
  then obtain r where r: "retriever = PRef r" by blast
  let ?os = "[[(''__class__'', PStr ''itemgetter''), (''item'', PStr ''question'')],
       [(''__class__'', PStr ''RunnableBinding''), (''bound'', PRef r),
        (''run_name'', PStr ''context_retriever'')],
       [(''__class__'', PStr ''RunnableSequence''), (''first'', PRef (length h + 0)),
        (''last'', PRef (length h + 1))],
       [(''__class__'', PStr ''RunnableSequence''), (''first'', PRef (length h + 2)),
        (''last'', PFun ''format_documents'')],
       [(''__class__'', PStr ''RunnableAssign''), (''context'', PRef (length h + 3))],
       [(''__class__'', PStr ''RunnableSequence''), (''first'', PRef (length h + 4)),
        (''last'', PRef p)],
       [(''__class__'', PStr ''RunnableSequence''), (''first'', PRef (length h + 5)),
        (''last'', llm)],
       [(''__class__'', PStr ''RunnableWithMessageHistory''),
        (''runnable'', PRef (length h + 6)),
        (''get_session_history'', PFun ''get_session_history''),
        (''input_messages_key'', PStr ''question''),
        (''history_messages_key'', PStr ''chat_history'')],
       [(''__class__'', PStr ''RunnableBinding''), (''bound'', PRef (length h + 7)),
        (''run_name'', PStr ''chain_answer'')]]"
  have run: "history_chain (PRef p) retriever llm h = (Inr (PRef (length h + 8)), h @ ?os)"
    using True r by (simp add: history_chain_def comp_defs)
  have g: "getattr (h @ ?os) (PRef (length h + i)) name = map_of (?os ! i) name"
    if "i < 9" for i name
    using that by (intro getattr_append_new) simp
  have rs: "retrieval_stage (h @ ?os) (PRef (length h + 8)) = Some retriever"
    unfolding retrieval_stage_def
    using g [of 8] g [of 7] g [of 6] g [of 5] g [of 4] g [of 3] g [of 2] g [of 1] r
    by simp
  have bm: "bound_model (h @ ?os) (PRef (length h + 8)) = Some llm"
    unfolding bound_model_def using g [of 8] g [of 7] g [of 6] by simp
  from assms run have "res = Inr (PRef (length h + 8))" "h' = h @ ?os" by simp_all
  then show ?thesis using rs bm r by simp
qed


lemma take_prefix_append: "take (length (h @ os)) h' = h @ os \<Longrightarrow> take (length h) h' = h"
proof -
  assume a: "take (length (h @ os)) h' = h @ os"
  have "take (length h) h' = take (length h) (take (length (h @ os)) h')" by simp
  also have "\<dots> = take (length h) (h @ os)" by (simp only: a)
  finally show ?thesis by simp
qed

lemma probe_direct_after_new:
  assumes "map_of ob ''retriever'' = None"
    and "probe_direct (h @ [ob]) chain \<noteq> PNone"
  shows "probe_direct (h @ [ob]) chain = probe_direct h chain"
proof (cases chain)
  case (PRef c)
  consider "c < length h" | "c = length h" | "length h < c" by linarith
  then show ?thesis
  proof cases
    case 1
    then show ?thesis by (simp add: probe_direct_def PRef getattr_append_old)
  next
    case 2
    then show ?thesis using assms by (simp add: probe_direct_def PRef getattr_def)
  next
    case 3
    then show ?thesis using assms by (simp add: probe_direct_def PRef getattr_def)
  qed
qed (use assms in \<open>simp_all add: probe_direct_def getattr_def\<close>)

text \<open>
  C3: for every chain, every model and every heap, \<open>update_chain_llm\<close> leaves every
  object that existed before the call unchanged (it only allocates), and when it returns,
  the result is either the original chain itself or a newly allocated chain whose
  retrieval stage is the very reference located in the input chain, bound to the new
  model. When the located \<open>retriever\<close> attribute is not an object, or the model is not a
  runnable, the call raises instead of returning.
\<close>

theorem update_chain_llm_keeps_retriever:
  "case update_chain_llm chain llm h of
     (Inl ex, h') \<Rightarrow> take (length h) h' = h
   | (Inr updated, h') \<Rightarrow>
       take (length h) h' = h \<and>
       (updated = chain \<or>
        (\<exists>r. updated = PRef r \<and> length h \<le> r \<and> r < length h') \<and>
        retrieval_stage h' updated = Some (located_retriever h chain) \<and>
        (\<exists>r. located_retriever h chain = PRef r) \<and>
        bound_model h' updated = Some llm)"
proof -
  let ?prompt = "[(''__class__'', PStr ''ChatPromptTemplate''), (''system'', PStr SYSTEM_PROMPT),
          (''placeholder'', PStr ''chat_history''), (''human'', PStr ''{question}'')]"
  let ?h1 = "h @ [?prompt]"
  have rebuilt: ?thesis
    if run: "update_chain_llm chain llm h = history_chain (PRef (length h)) retriever llm ?h1"
      and loc: "retriever = located_retriever h chain" for retriever
  proof -
    obtain res h' where r: "history_chain (PRef (length h)) retriever llm ?h1 = (res, h')"
      by (cases "history_chain (PRef (length h)) retriever llm ?h1") blast
    note hc = history_chain_raises_or_returns [OF r]
    from hc have pre: "take (length h) h' = h" by (intro take_prefix_append [of h "[?prompt]"]) simp
    show ?thesis
    proof (cases res)
      case (Inl ex)
      then show ?thesis using run r pre by simp
    next
      case (Inr updated)
      with hc have all: "updated = PRef (length ?h1 + 8) \<and> length h' = length ?h1 + 9 \<and>
          (\<exists>r. retriever = PRef r) \<and> retrieval_stage h' updated = Some retriever \<and>
          bound_model h' updated = Some llm" by auto
      from all have u: "updated = PRef (length ?h1 + 8)" by (rule conjunct1)
      from all have l: "length h' = length ?h1 + 9" by blast
      from all have rr: "\<exists>r. retriever = PRef r" by blast
      from all have rs: "retrieval_stage h' updated = Some retriever" by blast
      from all have bm: "bound_model h' updated = Some llm" by blast
      have "\<exists>r. updated = PRef r \<and> length h \<le> r \<and> r < length h'"
        using u l by simp
      then show ?thesis using run r pre Inr rr rs bm loc by simp
    qed
  qed
  show ?thesis
  proof (cases "getattr h chain ''runnable''")
    case (Some inner_chain)
    then have loc: "located_retriever h chain = probe_inner h inner_chain"
      by (simp add: located_retriever_def)
    show ?thesis
    proof (cases "probe_inner h inner_chain = PNone")
      case True
      then show ?thesis by (simp add: update_chain_llm_def Some ret_def)
    next
      case False
      then have "update_chain_llm chain llm h
                   = history_chain (PRef (length h)) (probe_inner h inner_chain) llm ?h1"
        by (simp add: update_chain_llm_def Some Let_def bind_def chat_prompt_def new_def)
      then show ?thesis using loc by (intro rebuilt) simp_all
    qed
  next
    case None
    then have loc: "located_retriever h chain = probe_direct h chain"
      by (simp add: located_retriever_def)
    show ?thesis
    proof (cases "probe_direct ?h1 chain = PNone")
      case True
      then show ?thesis
        by (simp add: update_chain_llm_def None Let_def bind_def chat_prompt_def new_def ret_def)
    next
      case False
      then have same: "probe_direct ?h1 chain = probe_direct h chain"
        by (intro probe_direct_after_new) simp_all
      have "update_chain_llm chain llm h
              = history_chain (PRef (length h)) (probe_direct ?h1 chain) llm ?h1"
        using False
        by (simp add: update_chain_llm_def None Let_def bind_def chat_prompt_def new_def)
      then show ?thesis using loc same by (intro rebuilt) simp_all
    qed
  qed
qed

text \<open>
  A wrapped chain at reference 0 with its retriever at reference 2 is rebound to the model
  at reference 3: the new chain is the fresh reference 13 and its retrieval stage is
  reference 2.
\<close>

theorem update_chain_llm_keeps_retriever_witness:
  "fst (update_chain_llm (PRef 0) (PRef 3) (wired_heap @ [[]])) = Inr (PRef 13)
   \<and> located_retriever (wired_heap @ [[]]) (PRef 0) = PRef 2
   \<and> retrieval_stage (snd (update_chain_llm (PRef 0) (PRef 3) (wired_heap @ [[]]))) (PRef 13)
       = Some (PRef 2)
   \<and> bound_model (snd (update_chain_llm (PRef 0) (PRef 3) (wired_heap @ [[]]))) (PRef 13)
       = Some (PRef 3)"
proof -
  have l: "located_retriever (wired_heap @ [[]]) (PRef 0) = PRef 2"
    by (simp add: located_retriever_def probe_inner_def getattr_def wired_heap_def)
  have u: "fst (update_chain_llm (PRef 0) (PRef 3) (wired_heap @ [[]])) = Inr (PRef 13)"
    by (simp add: update_chain_llm_def probe_inner_def getattr_def wired_heap_def
          history_chain_def comp_defs Let_def eval_nat_numeral)
  from update_chain_llm_keeps_retriever
         [where chain = "PRef 0" and llm = "PRef 3" and h = "wired_heap @ [[]]"] u l
  show ?thesis by (auto split: prod.splits)
qed

section \<open>Properties of the turn\<close>

lemma forward_emitted: "concat (map forward events) = emitted events"
  unfolding emitted_def by (induction events) (simp_all split: chain_event.split)

lemma stream_loop_emitted:
  "stream_loop events ending =
     (case ending of
        Completed \<Rightarrow> (emitted events, None)
      | Raised ex \<Rightarrow> (emitted events @ [Text (error_message ex)], None)
      | Interrupted b \<Rightarrow> (emitted events, Some b))"
  unfolding forward_emitted [symmetric]
  by (induction events) (simp_all split: ending.split)

text \<open>
  C2, as stated: for every turn whose event stream raises after some events, the output
  would be what those events emit followed by exactly one error item. A stream that is
  cancelled after two text chunks raises \<open>asyncio.CancelledError\<close>, which is not an
  instance of \<open>Exception\<close>: the \<open>except\<close> clause does not catch it, the output is the two
  chunks without an error item, and the exception leaves the generator.
\<close>

theorem ask_question_cancelled:
  "astream_events cancelled_stream [[]] (PRef 0) ''Why?'' False ''session-id-42''
     = ([OnChainStream ''Hel'', OnChainStream ''lo''], Interrupted CancelledError)
   \<and> ask_question no_optimizations cancelled_stream (PRef 0) ''Why?'' ''session-id-42'' [[]]
       = ([Text ''Hel'', Text ''lo''], Some CancelledError)
   \<and> (\<forall>ex. Text (error_message ex)
          \<notin> set (fst (ask_question no_optimizations cancelled_stream (PRef 0) ''Why?''
                          ''session-id-42'' [[]])))"
proof -
  have s: "astream_events cancelled_stream h c q d i
             = ([OnChainStream ''Hel'', OnChainStream ''lo''], Interrupted CancelledError)"
    for h c q d i
    by (simp add: cancelled_stream_def)
  have a: "ask_question no_optimizations cancelled_stream (PRef 0) ''Why?'' ''session-id-42'' [[]]
             = ([Text ''Hel'', Text ''lo''], Some CancelledError)"
    by (simp add: ask_question_def select_chain_def select_question_def no_optimizations_def s)
  show ?thesis by (simp add: a s error_message_def)
qed

text \<open>
  C2, amended: for every turn whose event stream raises an exception that is an instance
  of \<open>Exception\<close> after some events, the output of \<open>ask_question\<close> is exactly what those
  events emit (the documents of a retriever event, the text of a chunk), followed by
  exactly one more item, the string \<open>An error occurred while processing your question:\<close>
  with the text of the exception; nothing follows it and no exception leaves the
  generator. When the stream ends by an exception outside \<open>Exception\<close>, the output is
  what the events emit and that exception leaves the generator; when the stream is
  exhausted, the output is what the events emit.
\<close>

theorem ask_question_stream_failure:
  assumes "astream_events e (snd (select_chain cfg e chain question h))
             (fst (select_chain cfg e chain question h)) (select_question cfg question)
             (DEBUG cfg) session_id = (events, ending)"
  shows "ask_question cfg e chain question session_id h
           = (case ending of
                Raised ex \<Rightarrow>
                  (emitted events
                     @ [Text (''An error occurred while processing your question: ''
                              @ exn_str ex)],
                   None)
              | Interrupted b \<Rightarrow> (emitted events, Some b)
              | Completed \<Rightarrow> (emitted events, None))"
  using assms
  by (simp add: ask_question_def split_beta stream_loop_emitted error_message_def
        split: ending.split)

text \<open>
  The scenario: the stream raises \<open>Exception\<close> after the retrieved documents, an event
  that is not forwarded and two text chunks; the output is the documents, the two chunks
  and the error message.
\<close>

theorem ask_question_stream_failure_witness:
  "astream_events failing_stream
     (snd (select_chain no_optimizations failing_stream (PRef 0) ''Why?'' [[]]))
     (fst (select_chain no_optimizations failing_stream (PRef 0) ''Why?'' [[]]))
     (select_question no_optimizations ''Why?'') (DEBUG no_optimizations) ''session-id-42''
     = ([OnRetrieverEnd [''doc''], OnOther ''on_chain_start'', OnChainStream ''Hel'',
         OnChainStream ''lo''],
        Raised (Exception ''connection reset''))
   \<and> ask_question no_optimizations failing_stream (PRef 0) ''Why?'' ''session-id-42'' [[]]
       = ([Documents [''doc''], Text ''Hel'', Text ''lo'',
           Text ''An error occurred while processing your question: connection reset''],
          None)"
proof -
  have h: "astream_events failing_stream
     (snd (select_chain no_optimizations failing_stream (PRef 0) ''Why?'' [[]]))
     (fst (select_chain no_optimizations failing_stream (PRef 0) ''Why?'' [[]]))
     (select_question no_optimizations ''Why?'') (DEBUG no_optimizations) ''session-id-42''
     = ([OnRetrieverEnd [''doc''], OnOther ''on_chain_start'', OnChainStream ''Hel'',
         OnChainStream ''lo''],
        Raised (Exception ''connection reset''))"
    by (simp add: failing_stream_def)
  from ask_question_stream_failure [OF h] h show ?thesis
    by (simp add: emitted_def)
qed

text \<open>
  C8: for every turn with routing enabled in which the routing step (the model factory or
  the rebinding) raises, the chain used for streaming is the chain passed into the turn,
  and the turn goes on: its output is the forwarded event stream of that chain.
\<close>

theorem routing_failure_keeps_chain:
  assumes "AUTO_COMPLEXITY_ROUTING cfg"
    and "fst (routing e chain question h) = Inl ex"
  shows "select_chain cfg e chain question h = (chain, snd (routing e chain question h))
         \<and> ask_question cfg e chain question session_id h
             = (case astream_events e (snd (routing e chain question h)) chain
                       (select_question cfg question) (DEBUG cfg) session_id of
                  (events, ending) \<Rightarrow> stream_loop events ending)"
proof -
  obtain h' where r: "routing e chain question h = (Inl ex, h')"
    using assms(2) by (cases "routing e chain question h") auto
  have s: "select_chain cfg e chain question h = (chain, h')"
    using assms(1) by (simp add: select_chain_def r)
  show ?thesis by (simp add: ask_question_def s r)
qed

lemma routing_factory_fails:
  "fst (routing model_factory_fails (PRef 0) ''Why?'' wired_heap) = Inl (Exception ''no API key'')"
  by (simp add: routing_def get_appropriate_llm_def create_llm_def model_factory_fails_def
        bind_def raise_def split_beta)

lemma routing_rebinding_fails:
  "fst (routing model_factory_works (PRef 0) ''Why?'' miswired_heap)
     = Inl (AttributeError ''object has no attribute with_config'')"
  by (simp add: routing_def get_appropriate_llm_def create_llm_def model_factory_works_def
        miswired_heap_def update_chain_llm_def probe_direct_def history_chain_def getattr_def
        comp_defs split_beta)

text \<open>
  Two turns: one in which the model constructor raises, and one in which the rebinding
  raises because the \<open>retriever\<close> attribute of the chain is a string.
\<close>

theorem routing_failure_keeps_chain_witness:
  "(AUTO_COMPLEXITY_ROUTING routing_only
    \<and> fst (routing model_factory_fails (PRef 0) ''Why?'' wired_heap)
        = Inl (Exception ''no API key'')
    \<and> fst (select_chain routing_only model_factory_fails (PRef 0) ''Why?'' wired_heap) = PRef 0
    \<and> ask_question routing_only model_factory_fails (PRef 0) ''Why?'' ''session-id-42''
          wired_heap = ([Documents [''doc''], Text ''Hi''], None))
   \<and> (fst (routing model_factory_works (PRef 0) ''Why?'' miswired_heap)
        = Inl (AttributeError ''object has no attribute with_config'')
    \<and> fst (select_chain routing_only model_factory_works (PRef 0) ''Why?'' miswired_heap)
        = PRef 0
    \<and> ask_question routing_only model_factory_works (PRef 0) ''Why?'' ''session-id-42''
          miswired_heap = ([Documents [''doc''], Text ''Hi''], None))"
proof -
  have a: "AUTO_COMPLEXITY_ROUTING routing_only" by (simp add: routing_only_def)
  note f1 = routing_factory_fails and f2 = routing_rebinding_fails
  have s1: "astream_events model_factory_fails h c q d s
              = ([OnRetrieverEnd [''doc''], OnChainStream ''Hi''], Completed)" for h c q d s
    by (simp add: model_factory_fails_def)
  have s2: "astream_events model_factory_works h c q d s
              = ([OnRetrieverEnd [''doc''], OnChainStream ''Hi''], Completed)" for h c q d s
    by (simp add: model_factory_works_def)
  from routing_failure_keeps_chain [OF a f1, of "''session-id-42''"]
  have r1: "fst (select_chain routing_only model_factory_fails (PRef 0) ''Why?'' wired_heap)
              = PRef 0
    \<and> ask_question routing_only model_factory_fails (PRef 0) ''Why?'' ''session-id-42''
          wired_heap = ([Documents [''doc''], Text ''Hi''], None)"
    by (simp add: s1)
  from routing_failure_keeps_chain [OF a f2, of "''session-id-42''"]
  have r2: "fst (select_chain routing_only model_factory_works (PRef 0) ''Why?'' miswired_heap)
              = PRef 0
    \<and> ask_question routing_only model_factory_works (PRef 0) ''Why?'' ''session-id-42''
          miswired_heap = ([Documents [''doc''], Text ''Hi''], None)"
    by (simp add: s2)
  from a f1 f2 r1 r2 show ?thesis by blast
qed
end
